theory Spec2Isabelle
  imports Main "HOL-Library.Monad_Syntax" "HOL-Library.Sublist"
begin

section \<open>Characters and strings of the Python program\<close>

text \<open>
  The program is \<^verbatim>\<open>src/app.py\<close>. A Python \<^verbatim>\<open>str\<close> is modelled as a \<^typ>\<open>string\<close>,
  each \<^typ>\<open>char\<close> standing for the code point of the same number (U+0000 to U+00FF).
  On this range the three character classes the program relies on are, in CPython:
  \<^item> \<^verbatim>\<open>str.isspace\<close>, which is also the class \<^verbatim>\<open>\s\<close> of \<^verbatim>\<open>re\<close> on a \<^verbatim>\<open>str\<close> pattern and
    the set \<^verbatim>\<open>str.strip()\<close> removes: U+0009..U+000D, U+001C..U+001F, U+0020, U+0085, U+00A0;
  \<^item> the class \<^verbatim>\<open>\d\<close> of \<^verbatim>\<open>re\<close> (decimal digits): U+0030..U+0039;
  \<^item> the line boundaries of \<^verbatim>\<open>str.splitlines\<close>: U+000A..U+000D, U+001C..U+001E, U+0085.
\<close>

definition is_space :: "char \<Rightarrow> bool" where
  "is_space c \<longleftrightarrow> c \<in> set [CHR 0x09, CHR 0x0A, CHR 0x0B, CHR 0x0C, CHR 0x0D,
     CHR 0x1C, CHR 0x1D, CHR 0x1E, CHR 0x1F, CHR 0x20, CHR 0x85, CHR 0xA0]"

definition is_decimal :: "char \<Rightarrow> bool" where
  "is_decimal c \<longleftrightarrow> c \<in> set ''0123456789''"

definition is_linebreak :: "char \<Rightarrow> bool" where
  "is_linebreak c \<longleftrightarrow> c \<in> set [CHR 0x0A, CHR 0x0B, CHR 0x0C, CHR 0x0D,
     CHR 0x1C, CHR 0x1D, CHR 0x1E, CHR 0x85]"

text \<open>
  \<^verbatim>\<open>str.splitlines()\<close>: the lines without their terminators; \<^verbatim>\<open>\r\n\<close> is one
  terminator; a terminator at the very end opens no further line; the empty string has
  no line.
\<close>

primrec splitlines :: "string \<Rightarrow> string list" where
  "splitlines [] = []"
| "splitlines (c # cs) =
     (if is_linebreak c then
        (if c = CHR 0x0D \<and> cs \<noteq> [] \<and> hd cs = CHR 0x0A then splitlines cs
         else [] # splitlines cs)
      else (case splitlines cs of [] \<Rightarrow> [[c]] | l # ls \<Rightarrow> (c # l) # ls))"

text \<open>\<^verbatim>\<open>'\n'.join(lines)\<close>.\<close>

fun join_nl :: "string list \<Rightarrow> string" where
  "join_nl [] = []"
| "join_nl [l] = l"
| "join_nl (l # l' # ls) = l @ CHR 0x0A # join_nl (l' # ls)"

text \<open>\<^verbatim>\<open>s.startswith(p)\<close>.\<close>

definition startswith :: "string \<Rightarrow> string \<Rightarrow> bool" where
  "startswith s p \<longleftrightarrow> take (length p) s = p"

text \<open>
  \<^verbatim>\<open>s.strip()\<close> removes the whitespace at both ends. \<open>rstrip\<close> drops a character
  exactly when it is whitespace and nothing is kept after it.
\<close>

primrec rstrip :: "string \<Rightarrow> string" where
  "rstrip [] = []"
| "rstrip (c # cs) = (if is_space c \<and> rstrip cs = [] then [] else c # rstrip cs)"

definition lstrip :: "string \<Rightarrow> string" where
  "lstrip s = dropWhile is_space s"

definition strip :: "string \<Rightarrow> string" where
  "strip s = rstrip (lstrip s)"

text \<open>
  \<^verbatim>\<open>lines[0]\<close> and \<^verbatim>\<open>lines.pop(0)\<close> raise \<^verbatim>\<open>IndexError\<close> on an empty list: \<open>None\<close>.
  \<open>pop0\<close> returns the list that is left.
\<close>

definition item0 :: "'a list \<Rightarrow> 'a option" where
  "item0 xs = (case xs of [] \<Rightarrow> None | x # _ \<Rightarrow> Some x)"

definition pop0 :: "'a list \<Rightarrow> 'a list option" where
  "pop0 xs = (case xs of [] \<Rightarrow> None | _ # r \<Rightarrow> Some r)"

section \<open>The regular expressions of \<open>clean_subtitles\<close>\<close>

text \<open>
  The four patterns are sequences of single-character classes, two of them with one
  greedy repetition \<^verbatim>\<open>C+\<close>. An \<open>item\<close> is one element of such a sequence.
\<close>

datatype item = One "char \<Rightarrow> bool" | Plus "char \<Rightarrow> bool"

text \<open>
  \<open>re_match p s\<close> is the match of \<open>p\<close> anchored at the start of \<open>s\<close>, as the backtracking
  matcher of \<^verbatim>\<open>re\<close> finds it: the text left after the match, or \<open>None\<close>. A greedy
  \<^verbatim>\<open>C+\<close> first tries to take one more character and gives it back only when the rest of
  the pattern then fails.
\<close>

fun re_match :: "item list \<Rightarrow> string \<Rightarrow> string option" where
  "re_match [] s = Some s"
| "re_match (One C # p) [] = None"
| "re_match (One C # p) (x # xs) = (if C x then re_match p xs else None)"
| "re_match (Plus C # p) [] = None"
| "re_match (Plus C # p) (x # xs) =
     (if C x then
        (case re_match (Plus C # p) xs of
           Some r \<Rightarrow> Some r
         | None \<Rightarrow> re_match p xs)
      else None)"

text \<open>
  \<^verbatim>\<open>re.sub(p, repl, s)\<close>: scanning from the left, the leftmost match is replaced and the
  scan resumes after it; where nothing matches the character is copied. (An empty match
  is replaced too and the next character copied, as \<^verbatim>\<open>re\<close> does; none of the four
  patterns can match the empty string.)
\<close>

function re_sub :: "item list \<Rightarrow> string \<Rightarrow> string \<Rightarrow> string" where
  "re_sub p repl [] = (case re_match p [] of Some _ \<Rightarrow> repl | None \<Rightarrow> [])"
| "re_sub p repl (x # xs) =
     (case re_match p (x # xs) of
        None \<Rightarrow> x # re_sub p repl xs
      | Some r \<Rightarrow>
          if length r < length (x # xs) then repl @ re_sub p repl r
          else repl @ x # re_sub p repl xs)"
  by pat_completeness auto
termination
  by (relation "measure (\<lambda>(p, repl, s). length s)") auto

text \<open>\<^verbatim>\<open>re.search(p, s) is not None\<close>: the pattern matches somewhere in \<open>s\<close>.\<close>

fun re_search :: "item list \<Rightarrow> string \<Rightarrow> bool" where
  "re_search p [] = (re_match p [] \<noteq> None)"
| "re_search p (x # xs) = (re_match p (x # xs) \<noteq> None \<or> re_search p xs)"

definition lit :: "string \<Rightarrow> item list" where
  "lit s = map (\<lambda>c. One (\<lambda>x. x = c)) s"

text \<open>\<^verbatim>\<open><[^>]+>\<close>\<close>

definition tag_re :: "item list" where
  "tag_re = lit ''<'' @ [Plus (\<lambda>x. x \<noteq> CHR ''>'')] @ lit ''>''"

text \<open>\<^verbatim>\<open>\d{2}:\d{2}:\d{2}\.\d{3}\<close>, one time stamp.\<close>

definition stamp_re :: "item list" where
  "stamp_re = [One is_decimal, One is_decimal] @ lit '':''
     @ [One is_decimal, One is_decimal] @ lit '':''
     @ [One is_decimal, One is_decimal] @ lit ''.''
     @ [One is_decimal, One is_decimal, One is_decimal]"

text \<open>\<^verbatim>\<open>\d{2}:\d{2}:\d{2}\.\d{3} --> \d{2}:\d{2}:\d{2}\.\d{3}\<close>\<close>

definition timing_re :: "item list" where
  "timing_re = stamp_re @ lit '' --> '' @ stamp_re"

text \<open>\<^verbatim>\<open>align:start position:[^%]+%\<close>\<close>

definition align_re :: "item list" where
  "align_re = lit ''align:start position:'' @ [Plus (\<lambda>x. x \<noteq> CHR ''%'')] @ lit ''%''"

text \<open>\<^verbatim>\<open>\s+\<close>\<close>

definition space_re :: "item list" where
  "space_re = [Plus is_space]"

section \<open>\<open>clean_subtitles\<close>\<close>

text \<open>
  Lines 18 to 25: the header lines are dropped one after the other, each test reading
  the first line of the list as the earlier drops left it.
\<close>

definition strip_header :: "string list \<Rightarrow> string list option" where
  "strip_header lines0 =
     (if lines0 \<noteq> [] then do {
        l \<leftarrow> item0 lines0;
        lines1 \<leftarrow> (if startswith l ''WEBVTT'' then pop0 lines0 else Some lines0);
        lines2 \<leftarrow> (if lines1 \<noteq> [] then do {
                      l \<leftarrow> item0 lines1;
                      if startswith l ''Kind:'' then pop0 lines1 else Some lines1 }
                    else Some lines1);
        (if lines2 \<noteq> [] then do {
           l \<leftarrow> item0 lines2;
           if startswith l ''Language:'' then pop0 lines2 else Some lines2 }
         else Some lines2) }
      else Some lines0)"

text \<open>Lines 31 to 35: the five passes over the joined text.\<close>

definition clean_text :: "string \<Rightarrow> string" where
  "clean_text t0 =
     (let t1 = re_sub tag_re [] t0;
          t2 = re_sub timing_re [] t1;
          t3 = re_sub align_re [] t2;
          t4 = re_sub space_re '' '' t3
      in strip t4)"

text \<open>The function: \<open>None\<close> would be an exception raised inside it.\<close>

definition clean_subtitles :: "string \<Rightarrow> string option" where
  "clean_subtitles subtitles = do {
     lines \<leftarrow> strip_header (splitlines subtitles);
     Some (clean_text (join_nl lines)) }"

section \<open>Exceptions, the file system and the collaborators\<close>

text \<open>
  The exceptions the program meets. \<open>DownloadError\<close> is \<^verbatim>\<open>yt_dlp.DownloadError\<close>,
  \<open>HTTPException\<close> carries \<^verbatim>\<open>status_code\<close> and \<^verbatim>\<open>detail\<close>, \<open>PyException\<close> is any other
  subclass of \<^verbatim>\<open>Exception\<close> (\<^verbatim>\<open>OSError\<close>, \<^verbatim>\<open>UnicodeDecodeError\<close>, \<^verbatim>\<open>IndexError\<close>, ...)
  with its message, and \<open>BaseOnly\<close> is a \<^verbatim>\<open>BaseException\<close> outside \<^verbatim>\<open>Exception\<close>
  (\<^verbatim>\<open>KeyboardInterrupt\<close>, ...), which \<^verbatim>\<open>except Exception\<close> does not catch.
\<close>

datatype exc =
    DownloadError string
  | HTTPException nat string
  | PyException string
  | BaseOnly string

fun dec :: "nat \<Rightarrow> string" where
  "dec n = (if n < 10 then [char_of (48 + n)] else dec (n div 10) @ [char_of (48 + n mod 10)])"

declare dec.simps [simp del]

text \<open>
  \<^verbatim>\<open>str(e)\<close>, as the f-string of line 95 formats it; Starlette prints an
  \<^verbatim>\<open>HTTPException\<close> as status code, colon, detail.
\<close>

fun str_exc :: "exc \<Rightarrow> string" where
  "str_exc (DownloadError m) = m"
| "str_exc (HTTPException status detail) = dec status @ '': '' @ detail"
| "str_exc (PyException m) = m"
| "str_exc (BaseOnly m) = m"

text \<open>
  The file system: what is at a path. A regular file holds the text \<^verbatim>\<open>f.read()\<close>
  returns, or is \<open>Unreadable\<close>: \<^verbatim>\<open>open\<close> or \<^verbatim>\<open>read\<close> raises (bytes that are not UTF-8,
  a permission).
\<close>

datatype node = Dir | File string | Unreadable exc

type_synonym fs = "string \<rightharpoonup> node"

definition path_exists :: "fs \<Rightarrow> string \<Rightarrow> bool" where
  "path_exists fs p \<longleftrightarrow> fs p \<noteq> None"

definition isfile :: "fs \<Rightarrow> string \<Rightarrow> bool" where
  "isfile fs p \<longleftrightarrow> (case fs p of Some (File _) \<Rightarrow> True | Some (Unreadable _) \<Rightarrow> True | _ \<Rightarrow> False)"

definition isdir :: "fs \<Rightarrow> string \<Rightarrow> bool" where
  "isdir fs p \<longleftrightarrow> fs p = Some Dir"

text \<open>\<^verbatim>\<open>os.path.join(a, b)\<close> for a relative \<open>b\<close>.\<close>

definition path_join :: "string \<Rightarrow> string \<Rightarrow> string" where
  "path_join a b = (if a = [] \<or> last a = CHR ''/'' then a @ b else a @ ''/'' @ b)"

text \<open>The paths \<^verbatim>\<open>shutil.rmtree(p)\<close> deletes: \<open>p\<close> and what lies below it.\<close>

definition remove_tree :: "string \<Rightarrow> fs \<Rightarrow> fs" where
  "remove_tree p fs = (\<lambda>q. if q = p \<or> startswith q (path_join p []) then None else fs q)"

text \<open>
  What the program does not decide: whether \<^verbatim>\<open>os.makedirs\<close> and \<^verbatim>\<open>shutil.rmtree\<close> fail
  (an \<^verbatim>\<open>OSError\<close> with this message), and the Extraction Client, that is the
  \<^verbatim>\<open>YoutubeDL\<close> object with the options of lines 55 to 66 and its \<^verbatim>\<open>extract_info\<close>:
  given the URL and the directory of the output template it raises or returns, and
  changes the file system as it likes.
\<close>

record env =
  makedirs_error :: "string option"
  extract_info :: "string \<Rightarrow> string \<Rightarrow> fs \<Rightarrow> (exc + unit) \<times> fs"
  rmtree_error :: "string option"

type_synonym 'a outcome = "(exc + 'a) \<times> fs"

text \<open>
  \<^verbatim>\<open>os.makedirs(p)\<close> (only \<open>p\<close> itself is recorded, not its parents) and
  \<^verbatim>\<open>shutil.rmtree(p)\<close>, which needs a directory. A failed call leaves the file system as
  it was.
\<close>

definition makedirs :: "env \<Rightarrow> string \<Rightarrow> fs \<Rightarrow> unit outcome" where
  "makedirs e p fs =
     (case makedirs_error e of
        Some m \<Rightarrow> (Inl (PyException m), fs)
      | None \<Rightarrow> (Inr (), fs(p \<mapsto> Dir)))"

definition rmtree :: "env \<Rightarrow> string \<Rightarrow> fs \<Rightarrow> unit outcome" where
  "rmtree e p fs =
     (case rmtree_error e of
        Some m \<Rightarrow> (Inl (PyException m), fs)
      | None \<Rightarrow>
          if isdir fs p then (Inr (), remove_tree p fs)
          else (Inl (PyException ''NotADirectoryError''), fs))"

text \<open>\<^verbatim>\<open>open(p, 'r', encoding='utf-8')\<close> and \<^verbatim>\<open>f.read()\<close>.\<close>

definition read_text :: "fs \<Rightarrow> string \<Rightarrow> exc + string" where
  "read_text fs p =
     (case fs p of
        Some (File t) \<Rightarrow> Inr t
      | Some (Unreadable x) \<Rightarrow> Inl x
      | Some Dir \<Rightarrow> Inl (PyException ''IsADirectoryError'')
      | None \<Rightarrow> Inl (PyException ''FileNotFoundError''))"

section \<open>The orchestrator\<close>

text \<open>Lines 39 to 44.\<close>

definition cleanup_files :: "env \<Rightarrow> string \<Rightarrow> fs \<Rightarrow> unit outcome" where
  "cleanup_files e output_path fs =
     (if path_exists fs output_path then rmtree e output_path fs else (Inr (), fs))"

text \<open>
  The two \<^verbatim>\<open>except\<close> clauses of lines 92 to 95, applied to an exception raised inside
  the \<^verbatim>\<open>try\<close> block.
\<close>

fun handlers :: "exc \<Rightarrow> exc" where
  "handlers (DownloadError m) = HTTPException 400 ''Failed to download video or subtitles.''"
| "handlers (BaseOnly m) = BaseOnly m"
| "handlers x = HTTPException 500 (''An error occurred: '' @ str_exc x)"

text \<open>
  The body of the \<^verbatim>\<open>try\<close> block, lines 70 to 90. The result is the dictionary, as its
  list of items.
\<close>

definition try_body :: "env \<Rightarrow> string \<Rightarrow> string \<Rightarrow> fs \<Rightarrow> ((string \<times> string) list) outcome" where
  "try_body e youtube_url output_path fs =
     (case extract_info e youtube_url output_path fs of
        (Inl x, fs') \<Rightarrow> (Inl x, fs')
      | (Inr _, fs') \<Rightarrow>
          (let subtitle_file_path = path_join output_path ''file.en.vtt'' in
           if isfile fs' subtitle_file_path then
             (case read_text fs' subtitle_file_path of
                Inl x \<Rightarrow> (Inl x, fs')
              | Inr subtitles \<Rightarrow>
                  (case clean_subtitles subtitles of
                     None \<Rightarrow> (Inl (PyException ''IndexError''), fs')
                   | Some t \<Rightarrow> (Inr [(''subtitles'', t)], fs')))
           else (Inl (HTTPException 404 ''No subtitles found for this video.''), fs')))"

text \<open>Lines 46 to 95.\<close>

definition download_audio_and_subtitles ::
    "env \<Rightarrow> string \<Rightarrow> string \<Rightarrow> fs \<Rightarrow> ((string \<times> string) list) outcome" where
  "download_audio_and_subtitles e youtube_url output_path fs =
     (case (if \<not> path_exists fs output_path then makedirs e output_path fs else (Inr (), fs)) of
        (Inl x, fs1) \<Rightarrow> (Inl x, fs1)
      | (Inr _, fs1) \<Rightarrow>
          (case try_body e youtube_url output_path fs1 of
             (Inl x, fs2) \<Rightarrow> (Inl (handlers x), fs2)
           | (Inr d, fs2) \<Rightarrow> (Inr d, fs2)))"

text \<open>
  Lines 102 to 119. \<^verbatim>\<open>except HTTPException as e: raise e\<close> changes nothing; the
  \<^verbatim>\<open>finally\<close> block runs on every path, and an exception it raises replaces the result
  of the \<^verbatim>\<open>try\<close> statement.
\<close>

definition workspace :: string where
  "workspace = ''/tmp/audio''"

definition download :: "env \<Rightarrow> string \<Rightarrow> fs \<Rightarrow> ((string \<times> string) list) outcome" where
  "download e url fs =
     (let output_path = workspace in
      case download_audio_and_subtitles e url output_path fs of
        (result, fs1) \<Rightarrow>
          (case cleanup_files e output_path fs1 of
             (Inl x, fs2) \<Rightarrow> (Inl x, fs2)
           | (Inr _, fs2) \<Rightarrow> (result, fs2)))"

section \<open>Test environments\<close>

text \<open>
  An Extraction Client that reports success and writes nothing (scenario B), one that
  reports a download error (scenario C), and one that writes a caption file; the last
  two also on a file system where the workspace cannot be removed.
\<close>

definition silent_client :: env where
  "silent_client = \<lparr> makedirs_error = None,
     extract_info = (\<lambda>url p fs. (Inr (), fs)), rmtree_error = None \<rparr>"

definition offline_client :: env where
  "offline_client = \<lparr> makedirs_error = None,
     extract_info = (\<lambda>url p fs. (Inl (DownloadError ''ERROR: unable to download webpage''), fs)),
     rmtree_error = None \<rparr>"

definition offline_locked :: env where
  "offline_locked = offline_client \<lparr> rmtree_error := Some ''[Errno 13] Permission denied'' \<rparr>"

definition captioned_client :: env where
  "captioned_client = \<lparr> makedirs_error = None,
     extract_info = (\<lambda>url p fs.
        (Inr (), fs(path_join p ''file.en.vtt'' \<mapsto> File ''WEBVTT\<newline>\<newline>Hello <c>world</c>\<newline>''))),
     rmtree_error = None \<rparr>"

definition captioned_locked :: env where
  "captioned_locked = captioned_client \<lparr> rmtree_error := Some ''[Errno 13] Permission denied'' \<rparr>"

section \<open>Notions used to state and prove the properties of the cleaner\<close>

text \<open>
  What the specification calls one header check: if the first line begins with the token,
  drop it. It is compared with lines 18 to 25 in \<open>strip_header_eq\<close>.
\<close>

definition drop_if_starts :: "string \<Rightarrow> string list \<Rightarrow> string list" where
  "drop_if_starts tok ls = (case ls of [] \<Rightarrow> [] | l # r \<Rightarrow> if startswith l tok then r else ls)"

text \<open>The text begins with one of the three header tokens.\<close>

definition header_start :: "string \<Rightarrow> bool" where
  "header_start s \<longleftrightarrow> startswith s ''WEBVTT'' \<or> startswith s ''Kind:'' \<or> startswith s ''Language:''"

text \<open>None of the three removable patterns matches anywhere in the text.\<close>

definition no_markup :: "string \<Rightarrow> bool" where
  "no_markup s \<longleftrightarrow> \<not> re_search tag_re s \<and> \<not> re_search timing_re s \<and> \<not> re_search align_re s"

text \<open>Two whitespace characters in a row; no whitespace at either end.\<close>

fun has_ws_run :: "string \<Rightarrow> bool" where
  "has_ws_run (a # b # cs) = ((is_space a \<and> is_space b) \<or> has_ws_run (b # cs))"
| "has_ws_run cs = False"

definition trimmed :: "string \<Rightarrow> bool" where
  "trimmed s \<longleftrightarrow> (s = [] \<or> (\<not> is_space (hd s) \<and> \<not> is_space (last s)))"

text \<open>The only whitespace character in the text is the space U+0020.\<close>

definition plain_spaces :: "string \<Rightarrow> bool" where
  "plain_spaces s \<longleftrightarrow> list_all (\<lambda>c. is_space c = (c = CHR '' '')) s"

text \<open>The characters at which a match of the pattern can begin.\<close>

fun first_ok :: "item list \<Rightarrow> char \<Rightarrow> bool" where
  "first_ok [] c = True"
| "first_ok (One C # p) c = C c"
| "first_ok (Plus C # p) c = C c"

text \<open>
  The shape of a text in which \<^verbatim>\<open><[^>]+>\<close> matches nowhere: after each \<^verbatim>\<open><\<close> comes
  \<^verbatim>\<open>>\<close> at once, or no \<^verbatim>\<open>>\<close> at all.
\<close>

fun lt_ok :: "string \<Rightarrow> bool" where
  "lt_ok [] = True"
| "lt_ok (c # cs) =
     ((c = CHR ''<'' \<longrightarrow> (cs \<noteq> [] \<and> hd cs = CHR ''>'') \<or> CHR ''>'' \<notin> set cs) \<and> lt_ok cs)"

text \<open>
  The text cut at every whitespace character, its non-empty pieces, and these joined by
  single spaces: what collapsing and trimming leave of a text.
\<close>

primrec fields :: "string \<Rightarrow> string list" where
  "fields [] = [[]]"
| "fields (c # cs) =
     (if is_space c then [] # fields cs
      else (case fields cs of [] \<Rightarrow> [[c]] | w # ws \<Rightarrow> (c # w) # ws))"

definition words :: "string \<Rightarrow> string list" where
  "words s = filter (\<lambda>w. w \<noteq> []) (fields s)"

fun unwords :: "string list \<Rightarrow> string" where
  "unwords [] = []"
| "unwords [w] = w"
| "unwords (w # w' # ws) = w @ CHR '' '' # unwords (w' # ws)"

definition spaced :: "string \<Rightarrow> string" where
  "spaced s = (if s \<noteq> [] \<and> is_space (hd s) \<and> words s \<noteq> [] then CHR '' '' # unwords (words s)
               else unwords (words s))"

text \<open>
  The positioning artifact as the specification writes it, with a number for the
  position: \<^verbatim>\<open>align:start position:\d+%\<close>. (Line 33 has \<^verbatim>\<open>[^%]+\<close> in its place.)
\<close>

definition align_num_re :: "item list" where
  "align_num_re = lit ''align:start position:'' @ [Plus is_decimal] @ lit ''%''"

text \<open>
  A text that consists of markup and whitespace only: read from the left, it is a
  sequence of whitespace characters, tags, timing ranges and numeric positioning
  artifacts. \<open>tokens_only ps\<close> reads a text made of whitespace and of matches of the
  patterns \<open>ps\<close>, tried in this order.
\<close>

fun first_match :: "item list list \<Rightarrow> string \<Rightarrow> string option" where
  "first_match [] s = None"
| "first_match (p # ps) s = (case re_match p s of Some r \<Rightarrow> Some r | None \<Rightarrow> first_match ps s)"

function tokens_only :: "item list list \<Rightarrow> string \<Rightarrow> bool" where
  "tokens_only ps [] = True"
| "tokens_only ps (c # cs) =
     (if is_space c then tokens_only ps cs
      else (case first_match ps (c # cs) of
              None \<Rightarrow> False
            | Some r \<Rightarrow> if length r < length (c # cs) then tokens_only ps r else False))"
  by pat_completeness auto
termination
  by (relation "measure (\<lambda>(ps, s). length s)") auto

definition markup_only :: "string \<Rightarrow> bool" where
  "markup_only s = tokens_only [tag_re, timing_re, align_num_re] s"

text \<open>The characters of a timing range.\<close>

definition timing_char :: "char \<Rightarrow> bool" where
  "timing_char c \<longleftrightarrow> is_decimal c \<or> c \<in> set '':. ->''"

text \<open>
  In the text \<open>pre @ rest\<close>, the string \<open>a\<close> begins at one of the positions of \<open>pre\<close>.
\<close>

primrec begins_before :: "string \<Rightarrow> string \<Rightarrow> string \<Rightarrow> bool" where
  "begins_before a [] rest = False"
| "begins_before a (c # cs) rest = (startswith (c # cs @ rest) a \<or> begins_before a cs rest)"

text \<open>
  What stands before the first whitespace character of a text, and the words after it.
\<close>

definition lead_and_words :: "string \<Rightarrow> string \<times> string list" where
  "lead_and_words s = (hd (fields s), filter (\<lambda>w. w \<noteq> []) (tl (fields s)))"

section \<open>Properties of the orchestrator\<close>

text \<open>
  What \<open>cleanup_files\<close> does: nothing when nothing is at the path; it removes the tree
  when \<^verbatim>\<open>shutil.rmtree\<close> does not fail and a directory is at the path; otherwise it raises
  and leaves the file system as it is.
\<close>

lemma cleanup_files_cases:
  "cleanup_files e p fs =
     (if fs p = None then (Inr (), fs)
      else if rmtree_error e = None \<and> fs p = Some Dir then (Inr (), remove_tree p fs)
      else (Inl (PyException (case rmtree_error e of Some m \<Rightarrow> m | None \<Rightarrow> ''NotADirectoryError'')), fs))"
  by (auto simp: cleanup_files_def rmtree_def path_exists_def isdir_def split: option.splits)

lemma extraction_error_handled:
  assumes "path_exists fs output_path \<or> makedirs_error e = None"
      and "extract_info e url output_path
             (if path_exists fs output_path then fs else fs(output_path \<mapsto> Dir)) = (Inl x, fs2)"
  shows "download_audio_and_subtitles e url output_path fs = (Inl (handlers x), fs2)"
  using assms
  by (auto simp: download_audio_and_subtitles_def makedirs_def try_body_def)

text \<open>
  Whenever the extraction returns and no caption file is found, the 404 of line 90 is
  turned into a 500 by the handler of line 94.
\<close>

lemma missing_file_handled:
  assumes "path_exists fs output_path \<or> makedirs_error e = None"
      and "extract_info e url output_path
             (if path_exists fs output_path then fs else fs(output_path \<mapsto> Dir)) = (Inr u, fs2)"
      and "\<not> isfile fs2 (path_join output_path ''file.en.vtt'')"
  shows "download_audio_and_subtitles e url output_path fs =
           (Inl (HTTPException 500 (''An error occurred: '' @ dec 404
              @ '': No subtitles found for this video.'')), fs2)"
  using assms
  by (auto simp: download_audio_and_subtitles_def makedirs_def try_body_def)

text \<open>
  C1 (scenario B). The extraction succeeds and no file \<^verbatim>\<open>/tmp/audio/file.en.vtt\<close> exists:
  line 90 raises the 404 inside the \<^verbatim>\<open>try\<close> block, \<^verbatim>\<open>except Exception\<close> of line 94
  catches it (an \<^verbatim>\<open>HTTPException\<close> is an \<^verbatim>\<open>Exception\<close>) and raises a 500 in its place. The
  call fails with status 500, not with the "not found" status 404.
\<close>

theorem missing_caption_file_surfaces_500:
  "fst (download silent_client ''https://youtu.be/x'' Map.empty)
     = Inl (HTTPException 500 ''An error occurred: 404: No subtitles found for this video.'')"
  by code_simp

text \<open>
  C2, as the code has it. Let the fetch step end with \<open>r\<close> (a result or an exception) and
  leave the file system \<open>fs1\<close>. When the call returns, nothing exists at the workspace path
  \<^verbatim>\<open>/tmp/audio\<close> exactly when nothing was there after the fetch step, or
  \<^verbatim>\<open>shutil.rmtree\<close> does not fail and a directory was there; the call then ends as the
  fetch step did. Otherwise the removal raises: the call ends with that \<^verbatim>\<open>OSError\<close>,
  whatever the fetch step had produced, and the workspace is still there.
\<close>

theorem workspace_absent_unless_removal_fails:
  assumes "download_audio_and_subtitles e url workspace fs = (r, fs1)"
  shows "(\<not> path_exists (snd (download e url fs)) workspace
            \<longleftrightarrow> fs1 workspace = None \<or> (rmtree_error e = None \<and> fs1 workspace = Some Dir))
       \<and> (\<not> path_exists (snd (download e url fs)) workspace \<longrightarrow> fst (download e url fs) = r)
       \<and> (path_exists (snd (download e url fs)) workspace
            \<longrightarrow> (\<exists>m. fst (download e url fs) = Inl (PyException m)))"
  using assms
  by (auto simp: download_def cleanup_files_cases path_exists_def remove_tree_def
      split: option.splits)

theorem workspace_absent_unless_removal_fails_witness:
  "fst (download captioned_client ''https://youtu.be/x'' Map.empty)
     = Inr [(''subtitles'', ''Hello world'')]
   \<and> \<not> path_exists (snd (download captioned_client ''https://youtu.be/x'' Map.empty)) workspace"
proof -
  let ?b = "download_audio_and_subtitles captioned_client ''https://youtu.be/x'' workspace Map.empty"
  have a: "?b = (fst ?b, snd ?b)" by simp
  have r: "fst ?b = Inr [(''subtitles'', ''Hello world'')]" by code_simp
  have d: "rmtree_error captioned_client = None \<and> snd ?b workspace = Some Dir" by code_simp
  from workspace_absent_unless_removal_fails [OF a] r d show ?thesis by simp
qed

text \<open>
  C2, as the claim states it, fails. The Extraction Client writes the caption file, the
  fetch step returns the cleaned text, and removing the workspace fails: the call ends
  with the \<^verbatim>\<open>OSError\<close> of the removal (an unexpected failure), and the workspace
  directory that existed during the call still exists after it.
\<close>

theorem workspace_left_when_removal_fails:
  "fst (download_audio_and_subtitles captioned_locked ''https://youtu.be/x'' workspace Map.empty)
     = Inr [(''subtitles'', ''Hello world'')]
   \<and> fst (download captioned_locked ''https://youtu.be/x'' Map.empty)
     = Inl (PyException ''[Errno 13] Permission denied'')
   \<and> path_exists (snd (download captioned_locked ''https://youtu.be/x'' Map.empty)) workspace
   \<and> snd (download captioned_locked ''https://youtu.be/x'' Map.empty) workspace = Some Dir"
  by code_simp

text \<open>
  C5, as the code has it. The \<^verbatim>\<open>finally\<close> block of \<open>download\<close> calls \<open>cleanup_files\<close>
  unguarded: when an earlier step has failed with \<open>x\<close> and the cleanup raises \<open>y\<close>, the
  caller sees \<open>y\<close>; it sees \<open>x\<close> exactly when the cleanup completes.
\<close>

theorem cleanup_failure_replaces_earlier_failure:
  assumes "download_audio_and_subtitles e url workspace fs = (Inl x, fs1)"
      and "cleanup_files e workspace fs1 = (c, fs2)"
  shows "fst (download e url fs) = (case c of Inl y \<Rightarrow> Inl y | Inr u \<Rightarrow> Inl x)"
  using assms by (simp add: download_def split: sum.splits)

theorem cleanup_failure_replaces_earlier_failure_witness:
  "download_audio_and_subtitles offline_locked ''https://youtu.be/x'' workspace Map.empty
     = (Inl (HTTPException 400 ''Failed to download video or subtitles.''), [workspace \<mapsto> Dir])
   \<and> cleanup_files offline_locked workspace [workspace \<mapsto> Dir]
     = (Inl (PyException ''[Errno 13] Permission denied''), [workspace \<mapsto> Dir])
   \<and> fst (download offline_locked ''https://youtu.be/x'' Map.empty)
     = Inl (PyException ''[Errno 13] Permission denied'')"
proof -
  have a: "download_audio_and_subtitles offline_locked ''https://youtu.be/x'' workspace Map.empty
     = (Inl (HTTPException 400 ''Failed to download video or subtitles.''), [workspace \<mapsto> Dir])"
    by (simp add: download_audio_and_subtitles_def offline_locked_def offline_client_def
        makedirs_def try_body_def path_exists_def)
  have b: "cleanup_files offline_locked workspace [workspace \<mapsto> Dir]
     = (Inl (PyException ''[Errno 13] Permission denied''), [workspace \<mapsto> Dir])"
    by (simp add: cleanup_files_def rmtree_def offline_locked_def offline_client_def
        path_exists_def)
  from cleanup_failure_replaces_earlier_failure [OF a b] a b show ?thesis by simp
qed

text \<open>
  C5, as the claim states it, fails: the extraction fails (status 400 pending) and
  removing the workspace fails too; the caller gets the \<^verbatim>\<open>OSError\<close> of the removal, not
  the 400.
\<close>

theorem cleanup_failure_masks_400:
  "fst (download_audio_and_subtitles offline_locked ''https://youtu.be/x'' workspace Map.empty)
     = Inl (HTTPException 400 ''Failed to download video or subtitles.'')
   \<and> fst (cleanup_files offline_locked workspace
        (snd (download_audio_and_subtitles offline_locked ''https://youtu.be/x'' workspace Map.empty)))
     = Inl (PyException ''[Errno 13] Permission denied'')
   \<and> fst (download offline_locked ''https://youtu.be/x'' Map.empty)
     = Inl (PyException ''[Errno 13] Permission denied'')
   \<and> fst (download offline_locked ''https://youtu.be/x'' Map.empty)
     \<noteq> Inl (HTTPException 400 ''Failed to download video or subtitles.'')"
  by code_simp

text \<open>
  C8 (scenario C), as the code has it. The workspace can be opened and the Extraction
  Client raises a \<^verbatim>\<open>DownloadError\<close>, leaving the file system \<open>fs2\<close>. When
  \<^verbatim>\<open>shutil.rmtree\<close> does not fail and the workspace is a directory (or nothing is at its
  path), the call fails with status 400 and nothing is left at the workspace path. In
  every other case the removal raises: the call fails with that \<^verbatim>\<open>OSError\<close> in place of
  the 400, and the workspace is still there.
\<close>

theorem extraction_failure_is_400_unless_removal_fails:
  assumes "path_exists fs workspace \<or> makedirs_error e = None"
      and "extract_info e url workspace
             (if path_exists fs workspace then fs else fs(workspace \<mapsto> Dir))
           = (Inl (DownloadError m), fs2)"
  shows "(fs2 workspace = None \<or> (rmtree_error e = None \<and> fs2 workspace = Some Dir)
            \<longrightarrow> fst (download e url fs)
                  = Inl (HTTPException 400 ''Failed to download video or subtitles.'')
                \<and> \<not> path_exists (snd (download e url fs)) workspace)
       \<and> (\<not> (fs2 workspace = None \<or> (rmtree_error e = None \<and> fs2 workspace = Some Dir))
            \<longrightarrow> (\<exists>m'. fst (download e url fs) = Inl (PyException m'))
                \<and> path_exists (snd (download e url fs)) workspace)"
proof -
  from extraction_error_handled [OF assms]
  have b: "download_audio_and_subtitles e url workspace fs
             = (Inl (HTTPException 400 ''Failed to download video or subtitles.''), fs2)"
    by simp
  show ?thesis
    by (auto simp: download_def b cleanup_files_cases path_exists_def remove_tree_def
        split: option.splits)
qed

theorem extraction_failure_is_400_unless_removal_fails_witness:
  "(path_exists Map.empty workspace \<or> makedirs_error offline_client = None)
   \<and> fst (download offline_client ''https://youtu.be/x'' Map.empty)
       = Inl (HTTPException 400 ''Failed to download video or subtitles.'')
   \<and> \<not> path_exists (snd (download offline_client ''https://youtu.be/x'' Map.empty)) workspace"
proof -
  have a: "path_exists Map.empty workspace \<or> makedirs_error offline_client = None"
    by (simp add: offline_client_def)
  have b: "extract_info offline_client ''https://youtu.be/x'' workspace
             (if path_exists Map.empty workspace then Map.empty else [workspace \<mapsto> Dir])
           = (Inl (DownloadError ''ERROR: unable to download webpage''), [workspace \<mapsto> Dir])"
    by (simp add: offline_client_def path_exists_def)
  have c: "rmtree_error offline_client = None \<and> [workspace \<mapsto> Dir] workspace = Some Dir"
    by (simp add: offline_client_def)
  from extraction_failure_is_400_unless_removal_fails [OF a b] a c show ?thesis by simp
qed

text \<open>
  C8, as the claim states it, fails. The workspace directory exists, the Extraction
  Client raises a \<^verbatim>\<open>DownloadError\<close>, and removing the workspace fails: the call does not
  fail with status 400 but with the \<^verbatim>\<open>OSError\<close> of the removal, and the workspace
  directory is not removed.
\<close>

theorem download_error_with_failing_removal:
  "fst (extract_info offline_locked ''https://youtu.be/x'' workspace [workspace \<mapsto> Dir])
     = Inl (DownloadError ''ERROR: unable to download webpage'')
   \<and> fst (download offline_locked ''https://youtu.be/x'' [workspace \<mapsto> Dir])
     = Inl (PyException ''[Errno 13] Permission denied'')
   \<and> fst (download offline_locked ''https://youtu.be/x'' [workspace \<mapsto> Dir])
     \<noteq> Inl (HTTPException 400 ''Failed to download video or subtitles.'')
   \<and> path_exists (snd (download offline_locked ''https://youtu.be/x'' [workspace \<mapsto> Dir])) workspace"
  by code_simp

section \<open>Properties of the cleaner\<close>

subsection \<open>Matching and substitution\<close>

lemma re_match_suffix:
  "re_match p s = Some r \<Longrightarrow> \<exists>m. s = m @ r \<and> (p \<noteq> [] \<longrightarrow> m \<noteq> [])"
proof (induction p s arbitrary: r rule: re_match.induct)
  case (1 s)
  then show ?case by simp
next
  case (2 C p)
  then show ?case by simp
next
  case (3 C p x xs)
  then obtain m where "xs = m @ r" by (auto split: if_splits)
  then have "x # xs = (x # m) @ r" by simp
  then show ?case by blast
next
  case (4 C p)
  then show ?case by simp
next
  case (5 C p x xs)
  then obtain m where "xs = m @ r" by (auto split: if_splits option.splits)
  then have "x # xs = (x # m) @ r" by simp
  then show ?case by blast
qed

lemma re_match_shorter: "p \<noteq> [] \<Longrightarrow> re_match p s = Some r \<Longrightarrow> length r < length s"
  using re_match_suffix [of p s r] by auto

lemma re_match_set: "re_match p s = Some r \<Longrightarrow> set r \<subseteq> set s"
  using re_match_suffix [of p s r] by auto

lemma re_sub_Nil: "p \<noteq> [] \<Longrightarrow> re_sub p repl [] = []"
  by (cases "(p, [] :: string)" rule: re_match.cases) auto

lemma re_sub_Cons:
  "p \<noteq> [] \<Longrightarrow> re_sub p repl (x # xs) =
     (case re_match p (x # xs) of None \<Rightarrow> x # re_sub p repl xs | Some r \<Rightarrow> repl @ re_sub p repl r)"
  by (auto split: option.splits dest: re_match_shorter)

lemma re_sub_no_match: "\<not> re_search p s \<Longrightarrow> re_sub p repl s = s"
  by (induction s) auto

declare re_sub.simps [simp del]

lemma re_sub_set: "p \<noteq> [] \<Longrightarrow> set (re_sub p repl s) \<subseteq> set s \<union> set repl"
proof (induction p repl s rule: re_sub.induct)
  case (1 p repl)
  then show ?case by (simp add: re_sub_Nil)
next
  case (2 p repl x xs)
  show ?case
  proof (cases "re_match p (x # xs)")
    case None
    with 2 show ?thesis by (auto simp: re_sub_Cons)
  next
    case (Some r)
    with 2 re_match_shorter [OF "2.prems" Some] re_match_set [OF Some]
    show ?thesis by (auto simp: re_sub_Cons)
  qed
qed

lemma re_match_first: "re_match p (x # xs) = Some r \<Longrightarrow> first_ok p x"
  by (cases "(p, x # xs)" rule: re_match.cases) (auto split: if_splits)

lemma re_match_first_None: "\<not> first_ok p x \<Longrightarrow> re_match p (x # xs) = None"
  using re_match_first [of p x xs] by (cases "re_match p (x # xs)") auto

lemma plus_until:
  assumes "\<And>c. Q c = (\<not> P c)"
  shows "re_match [Plus P, One Q] s =
     (if s \<noteq> [] \<and> P (hd s) \<and> dropWhile P s \<noteq> [] then Some (tl (dropWhile P s)) else None)"
proof (induction s)
  case Nil
  then show ?case by simp
next
  case (Cons x xs)
  show ?case
  proof (cases "P x")
    case False
    then show ?thesis by simp
  next
    case True
    show ?thesis
    proof (cases xs)
      case Nil
      with True show ?thesis by simp
    next
      case (Cons y ys)
      with True Cons.IH assms show ?thesis by (auto split: option.splits)
    qed
  qed
qed

lemma plus_until_iff:
  assumes "\<And>c. Q c = (\<not> P c)"
  shows "re_match [Plus P, One Q] s = Some r
     \<longleftrightarrow> (\<exists>v y. s = v @ y # r \<and> v \<noteq> [] \<and> (\<forall>c\<in>set v. P c) \<and> \<not> P y)"
proof
  assume "re_match [Plus P, One Q] s = Some r"
  then have a: "s \<noteq> []" "P (hd s)" "dropWhile P s \<noteq> []" "r = tl (dropWhile P s)"
    by (auto simp: plus_until [OF assms] split: if_splits)
  have "s = takeWhile P s @ hd (dropWhile P s) # r"
    using a by simp
  moreover have "takeWhile P s \<noteq> []" using a by (cases s) auto
  moreover have "\<forall>c\<in>set (takeWhile P s). P c" by (auto dest: set_takeWhileD)
  moreover have "\<not> P (hd (dropWhile P s))" using a(3) by (rule hd_dropWhile)
  ultimately show "\<exists>v y. s = v @ y # r \<and> v \<noteq> [] \<and> (\<forall>c\<in>set v. P c) \<and> \<not> P y"
    by blast
next
  assume "\<exists>v y. s = v @ y # r \<and> v \<noteq> [] \<and> (\<forall>c\<in>set v. P c) \<and> \<not> P y"
  then obtain v y where s: "s = v @ y # r" and v: "v \<noteq> []" "\<forall>c\<in>set v. P c" and y: "\<not> P y"
    by blast
  have d: "dropWhile P s = y # r" using s v y by (simp add: dropWhile_append3)
  have "P (hd s)" using s v by (cases v) auto
  with d s v show "re_match [Plus P, One Q] s = Some r"
    by (simp add: plus_until [OF assms])
qed

lemma lit_match_iff:
  "re_match (lit a @ q) s = Some r \<longleftrightarrow> (\<exists>t. s = a @ t \<and> re_match q t = Some r)"
proof (induction a arbitrary: s)
  case Nil
  then show ?case by (simp add: lit_def)
next
  case (Cons c a)
  then show ?case by (cases s) (auto simp: lit_def)
qed

lemma tag_match_iff:
  "re_match tag_re s = Some r
     \<longleftrightarrow> (\<exists>v. s = CHR ''<'' # v @ CHR ''>'' # r \<and> v \<noteq> [] \<and> CHR ''>'' \<notin> set v)"
proof -
  have t: "tag_re = lit ''<'' @ [Plus (\<lambda>x. x \<noteq> CHR ''>''), One (\<lambda>x. x = CHR ''>'')]"
    by (simp add: tag_re_def lit_def)
  show ?thesis
    unfolding t lit_match_iff by (auto simp: plus_until_iff)
qed

lemma align_match_iff:
  "re_match align_re s = Some r
     \<longleftrightarrow> (\<exists>v. s = ''align:start position:'' @ v @ CHR ''%'' # r \<and> v \<noteq> [] \<and> CHR ''%'' \<notin> set v)"
proof -
  have t: "align_re = lit ''align:start position:'' @ [Plus (\<lambda>x. x \<noteq> CHR ''%''), One (\<lambda>x. x = CHR ''%'')]"
    by (simp add: align_re_def lit_def)
  show ?thesis
    unfolding t lit_match_iff by (auto simp: plus_until_iff)
qed

lemma space_match:
  "re_match space_re s = (if s \<noteq> [] \<and> is_space (hd s) then Some (dropWhile is_space s) else None)"
  unfolding space_re_def
proof (induction s)
  case Nil
  then show ?case by simp
next
  case (Cons x xs)
  then show ?case by (cases xs) (auto split: option.splits)
qed

subsection \<open>No tag survives the passes\<close>

lemma tag_match_Cons:
  "re_match tag_re (x # xs) \<noteq> None
     \<longleftrightarrow> x = CHR ''<'' \<and> xs \<noteq> [] \<and> hd xs \<noteq> CHR ''>'' \<and> CHR ''>'' \<in> set xs"
proof
  assume "re_match tag_re (x # xs) \<noteq> None"
  then obtain r where "re_match tag_re (x # xs) = Some r" by auto
  then obtain v where "x # xs = CHR ''<'' # v @ CHR ''>'' # r" "v \<noteq> []" "CHR ''>'' \<notin> set v"
    unfolding tag_match_iff by blast
  then show "x = CHR ''<'' \<and> xs \<noteq> [] \<and> hd xs \<noteq> CHR ''>'' \<and> CHR ''>'' \<in> set xs"
    by (cases v) auto
next
  assume a: "x = CHR ''<'' \<and> xs \<noteq> [] \<and> hd xs \<noteq> CHR ''>'' \<and> CHR ''>'' \<in> set xs"
  then obtain v r where s: "xs = v @ CHR ''>'' # r" "CHR ''>'' \<notin> set v"
    by (meson split_list_first)
  with a have "v \<noteq> []" by (cases v) auto
  with s a have "re_match tag_re (x # xs) = Some r"
    unfolding tag_match_iff by auto
  then show "re_match tag_re (x # xs) \<noteq> None" by simp
qed

lemma tag_match_Nil: "re_match tag_re [] = None"
  using tag_match_iff [of "[]"] by (cases "re_match tag_re []") auto

lemma search_tag_iff: "re_search tag_re s \<longleftrightarrow> \<not> lt_ok s"
proof (induction s)
  case Nil
  then show ?case by (simp add: tag_match_Nil)
next
  case (Cons x xs)
  show ?case
    unfolding re_search.simps tag_match_Cons Cons.IH by auto
qed

lemma lt_ok_suffix: "lt_ok (m @ r) \<Longrightarrow> lt_ok r"
  by (induction m) auto

lemma lt_ok_prepend: "CHR ''<'' \<notin> set a \<Longrightarrow> lt_ok (a @ u) = lt_ok u"
  by (induction a) auto

lemma tag_re_nonempty: "tag_re \<noteq> []"
  by (simp add: tag_re_def)

lemma sub_keeps_head:
  assumes "p \<noteq> []" "\<not> first_ok p x"
  shows "re_sub p repl (x # xs) = x # re_sub p repl xs"
  using assms by (simp add: re_sub_Cons re_match_first_None)

lemma lt_ok_after_sub:
  assumes p: "p \<noteq> []" "\<not> first_ok p (CHR ''>'')"
      and repl: "CHR ''<'' \<notin> set repl" "CHR ''>'' \<notin> set repl"
  shows "lt_ok s \<Longrightarrow> lt_ok (re_sub p repl s)"
proof (induction "length s" arbitrary: s rule: less_induct)
  case less
  show ?case
  proof (cases s)
    case Nil
    with p show ?thesis by (simp add: re_sub_Nil)
  next
    case (Cons x xs)
    show ?thesis
    proof (cases "re_match p (x # xs)")
      case None
      from less Cons have ih: "lt_ok (re_sub p repl xs)" by simp
      have "(re_sub p repl xs \<noteq> [] \<and> hd (re_sub p repl xs) = CHR ''>'')
              \<or> CHR ''>'' \<notin> set (re_sub p repl xs)" if "x = CHR ''<''"
      proof -
        from that less.prems Cons have "(xs \<noteq> [] \<and> hd xs = CHR ''>'') \<or> CHR ''>'' \<notin> set xs"
          by simp
        then show ?thesis
        proof
          assume "xs \<noteq> [] \<and> hd xs = CHR ''>''"
          then obtain ys where "xs = CHR ''>'' # ys" by (cases xs) auto
          with sub_keeps_head [OF p] show ?thesis by simp
        next
          assume "CHR ''>'' \<notin> set xs"
          with re_sub_set [OF p(1), of repl xs] repl show ?thesis by auto
        qed
      qed
      with None ih p Cons show ?thesis by (auto simp: re_sub_Cons)
    next
      case (Some r)
      from re_match_suffix [OF Some] obtain m where m: "x # xs = m @ r" by blast
      with less.prems Cons have "lt_ok r" by (metis lt_ok_suffix)
      with less Cons re_match_shorter [OF p(1) Some] have "lt_ok (re_sub p repl r)"
        by simp
      with Some p repl Cons show ?thesis by (simp add: re_sub_Cons lt_ok_prepend)
    qed
  qed
qed

lemma lt_ok_tag_pass: "lt_ok (re_sub tag_re [] s)"
proof (induction "length s" arbitrary: s rule: less_induct)
  case less
  note p = tag_re_nonempty
  show ?case
  proof (cases s)
    case Nil
    with p show ?thesis by (simp add: re_sub_Nil)
  next
    case (Cons x xs)
    show ?thesis
    proof (cases "re_match tag_re (x # xs)")
      case None
      from less Cons have ih: "lt_ok (re_sub tag_re [] xs)" by simp
      have "(re_sub tag_re [] xs \<noteq> [] \<and> hd (re_sub tag_re [] xs) = CHR ''>'')
              \<or> CHR ''>'' \<notin> set (re_sub tag_re [] xs)" if "x = CHR ''<''"
      proof -
        from that None tag_match_Cons [of x xs]
        have "xs = [] \<or> hd xs = CHR ''>'' \<or> CHR ''>'' \<notin> set xs" by auto
        then consider "xs \<noteq> [] \<and> hd xs = CHR ''>''" | "CHR ''>'' \<notin> set xs"
          by (cases xs) auto
        then show ?thesis
        proof cases
          case 1
          then obtain ys where "xs = CHR ''>'' # ys" by (cases xs) auto
          moreover have "\<not> first_ok tag_re (CHR ''>'')" by (simp add: tag_re_def lit_def)
          ultimately show ?thesis using sub_keeps_head [OF p] by simp
        next
          case 2
          with re_sub_set [OF p, of "[]" xs] show ?thesis by auto
        qed
      qed
      with None ih p Cons show ?thesis by (auto simp: re_sub_Cons)
    next
      case (Some r)
      with less Cons re_match_shorter [OF p Some] have "lt_ok (re_sub tag_re [] r)"
        by simp
      with Some p Cons show ?thesis by (simp add: re_sub_Cons)
    qed
  qed
qed

lemma rstrip_set: "set (rstrip s) \<subseteq> set s"
  by (induction s) auto

lemma gt_not_space: "\<not> is_space (CHR ''>'')"
  by (simp add: is_space_def)

lemma lt_ok_rstrip: "lt_ok s \<Longrightarrow> lt_ok (rstrip s)"
proof (induction s)
  case Nil
  then show ?case by simp
next
  case (Cons c cs)
  then have ih: "lt_ok (rstrip cs)" by simp
  have "(rstrip cs \<noteq> [] \<and> hd (rstrip cs) = CHR ''>'') \<or> CHR ''>'' \<notin> set (rstrip cs)"
    if "c = CHR ''<''"
  proof -
    from that Cons.prems have "(cs \<noteq> [] \<and> hd cs = CHR ''>'') \<or> CHR ''>'' \<notin> set cs" by simp
    then show ?thesis
    proof
      assume "cs \<noteq> [] \<and> hd cs = CHR ''>''"
      then obtain ys where "cs = CHR ''>'' # ys" by (cases cs) auto
      then show ?thesis by (simp add: gt_not_space)
    next
      assume "CHR ''>'' \<notin> set cs"
      with rstrip_set [of cs] show ?thesis by auto
    qed
  qed
  with ih show ?case by auto
qed

lemma lt_ok_lstrip: "lt_ok s \<Longrightarrow> lt_ok (lstrip s)"
proof -
  assume a: "lt_ok s"
  have "s = takeWhile is_space s @ lstrip s" by (simp add: lstrip_def)
  with a show ?thesis by (metis lt_ok_suffix)
qed

lemma clean_text_no_tag: "\<not> re_search tag_re (clean_text t)"
proof -
  have 1: "lt_ok (re_sub tag_re [] t)" by (rule lt_ok_tag_pass)
  have 2: "lt_ok (re_sub timing_re [] (re_sub tag_re [] t))"
    by (rule lt_ok_after_sub [OF _ _ _ _ 1])
       (simp_all add: timing_re_def stamp_re_def is_decimal_def)
  have 3: "lt_ok (re_sub align_re [] (re_sub timing_re [] (re_sub tag_re [] t)))"
    by (rule lt_ok_after_sub [OF _ _ _ _ 2]) (simp_all add: align_re_def lit_def)
  have 4: "lt_ok (re_sub space_re '' '' (re_sub align_re [] (re_sub timing_re [] (re_sub tag_re [] t))))"
    by (rule lt_ok_after_sub [OF _ _ _ _ 3]) (simp_all add: space_re_def is_space_def)
  show ?thesis
    unfolding search_tag_iff clean_text_def Let_def strip_def
    using 4 by (simp add: lt_ok_rstrip lt_ok_lstrip)
qed

subsection \<open>The whitespace of the output\<close>

lemma space_re_nonempty: "space_re \<noteq> []"
  by (simp add: space_re_def)

lemma collapse_Cons:
  "re_sub space_re sp (c # cs) =
     (if is_space c then sp @ re_sub space_re sp (dropWhile is_space cs)
      else c # re_sub space_re sp cs)"
  by (simp add: re_sub_Cons [OF space_re_nonempty] space_match)

lemma collapse_Nil: "re_sub space_re sp [] = []"
  by (simp add: re_sub_Nil [OF space_re_nonempty])

lemma collapse_head:
  "s \<noteq> [] \<Longrightarrow> \<not> is_space (hd s) \<Longrightarrow> re_sub space_re sp s = hd s # re_sub space_re sp (tl s)"
  by (cases s) (auto simp: collapse_Cons)

lemma sp_space: "is_space (CHR '' '')"
  by (simp add: is_space_def)

lemma has_ws_run_Cons:
  "has_ws_run (a # s) = ((is_space a \<and> s \<noteq> [] \<and> is_space (hd s)) \<or> has_ws_run s)"
  by (cases s) auto

lemma collapse_no_run: "\<not> has_ws_run (re_sub space_re '' '' s)"
proof (induction "length s" arbitrary: s rule: less_induct)
  case less
  show ?case
  proof (cases s)
    case Nil
    then show ?thesis by (simp add: collapse_Nil)
  next
    case (Cons c cs)
    show ?thesis
    proof (cases "is_space c")
      case False
      with less Cons show ?thesis by (simp add: collapse_Cons has_ws_run_Cons)
    next
      case True
      let ?d = "dropWhile is_space cs"
      have "length ?d < length s" using Cons by (simp add: length_dropWhile_le less_Suc_eq_le)
      with less have ih: "\<not> has_ws_run (re_sub space_re '' '' ?d)" by simp
      have "re_sub space_re '' '' ?d = [] \<or> \<not> is_space (hd (re_sub space_re '' '' ?d))"
      proof (cases "?d = []")
        case True
        show ?thesis unfolding True by (simp add: collapse_Nil)
      next
        case False
        then have "\<not> is_space (hd ?d)" by (rule hd_dropWhile)
        with False show ?thesis by (simp add: collapse_head)
      qed
      with ih True Cons show ?thesis by (auto simp add: collapse_Cons has_ws_run_Cons)
    qed
  qed
qed

lemma collapse_plain: "plain_spaces (re_sub space_re '' '' s)"
proof (induction "length s" arbitrary: s rule: less_induct)
  case less
  show ?case
  proof (cases s)
    case Nil
    then show ?thesis by (simp add: collapse_Nil plain_spaces_def)
  next
    case (Cons c cs)
    have "length (dropWhile is_space cs) < length s"
      using Cons by (simp add: length_dropWhile_le less_Suc_eq_le)
    with less Cons show ?thesis
      by (auto simp: collapse_Cons plain_spaces_def sp_space)
  qed
qed

lemma has_ws_run_suffix: "\<not> has_ws_run (m @ r) \<Longrightarrow> \<not> has_ws_run r"
  by (induction m) (auto simp: has_ws_run_Cons)

lemma rstrip_hd: "rstrip s \<noteq> [] \<Longrightarrow> hd (rstrip s) = hd s"
  by (cases s) (auto split: if_splits)

lemma rstrip_last: "rstrip s \<noteq> [] \<Longrightarrow> \<not> is_space (last (rstrip s))"
  by (induction s) (auto split: if_splits)

lemma rstrip_no_run: "\<not> has_ws_run s \<Longrightarrow> \<not> has_ws_run (rstrip s)"
proof (induction s)
  case Nil
  then show ?case by simp
next
  case (Cons c cs)
  then have "\<not> has_ws_run (rstrip cs)" by (simp add: has_ws_run_Cons)
  with Cons.prems show ?case
    by (auto simp: has_ws_run_Cons rstrip_hd)
qed

lemma strip_no_run: "\<not> has_ws_run s \<Longrightarrow> \<not> has_ws_run (strip s)"
proof -
  assume a: "\<not> has_ws_run s"
  have "s = takeWhile is_space s @ lstrip s" by (simp add: lstrip_def)
  with a have "\<not> has_ws_run (lstrip s)" by (metis has_ws_run_suffix)
  then show ?thesis by (simp add: strip_def rstrip_no_run)
qed

lemma strip_trimmed: "trimmed (strip s)"
proof (cases "strip s = []")
  case True
  then show ?thesis by (simp add: trimmed_def)
next
  case False
  then have r: "rstrip (lstrip s) \<noteq> []" by (simp add: strip_def)
  then have "lstrip s \<noteq> []" by auto
  then have "\<not> is_space (hd (lstrip s))" unfolding lstrip_def by (rule hd_dropWhile)
  with rstrip_hd [OF r] rstrip_last [OF r] show ?thesis by (simp add: trimmed_def strip_def)
qed

lemma strip_plain: "plain_spaces s \<Longrightarrow> plain_spaces (strip s)"
proof -
  assume a: "plain_spaces s"
  have "set (strip s) \<subseteq> set s"
    using rstrip_set [of "lstrip s"] set_dropWhileD [of _ is_space s]
    by (auto simp: strip_def lstrip_def)
  with a show ?thesis by (auto simp: plain_spaces_def list_all_iff)
qed

lemma clean_text_whitespace:
  "\<not> has_ws_run (clean_text t)" "trimmed (clean_text t)" "plain_spaces (clean_text t)"
  by (simp_all add: clean_text_def Let_def strip_no_run collapse_no_run strip_trimmed
      strip_plain collapse_plain)

subsection \<open>The header checks\<close>

lemma strip_header_eq:
  "strip_header ls =
     Some (drop_if_starts ''Language:'' (drop_if_starts ''Kind:'' (drop_if_starts ''WEBVTT'' ls)))"
  by (cases ls) (auto simp: strip_header_def item0_def pop0_def drop_if_starts_def split: list.splits)

lemma clean_subtitles_eq:
  "clean_subtitles s = Some (clean_text (join_nl
     (drop_if_starts ''Language:'' (drop_if_starts ''Kind:'' (drop_if_starts ''WEBVTT'' (splitlines s))))))"
  by (simp add: clean_subtitles_def strip_header_eq)

lemma startswith_Cons: "startswith (x # xs) (y # ys) \<longleftrightarrow> x = y \<and> startswith xs ys"
  by (auto simp: startswith_def)

lemma startswith_Nil2 [simp]: "startswith s []"
  by (simp add: startswith_def)

lemma startswith_Nil1: "startswith [] p \<longleftrightarrow> p = []"
  by (auto simp: startswith_def)

lemma splitlines_Nil_iff: "splitlines s = [] \<longleftrightarrow> s = []"
  by (induction s) (auto split: list.splits)

lemma first_line_startswith:
  assumes "\<forall>c\<in>set tok. \<not> is_linebreak c" "tok \<noteq> []"
  shows "s \<noteq> [] \<Longrightarrow> startswith (hd (splitlines s)) tok \<longleftrightarrow> startswith s tok"
  using assms
proof (induction s arbitrary: tok)
  case Nil
  then show ?case by simp
next
  case (Cons c cs)
  obtain t ts where tok: "tok = t # ts" using Cons.prems by (cases tok) auto
  show ?case
  proof (cases "is_linebreak c")
    case True
    with tok Cons.prems have "c \<noteq> t" by auto
    moreover have "hd (splitlines (c # cs)) = []"
    proof (cases "c = CHR 0x0D \<and> cs \<noteq> [] \<and> hd cs = CHR 0x0A")
      case True
      then obtain ds where "cs = CHR 0x0A # ds" by (cases cs) auto
      then show ?thesis using True by (simp add: is_linebreak_def)
    next
      case False
      with True show ?thesis by auto
    qed
    ultimately show ?thesis using tok by (simp add: startswith_Cons startswith_Nil1)
  next
    case False
    show ?thesis
    proof (cases cs)
      case Nil
      with False tok show ?thesis by (auto simp: startswith_Cons startswith_Nil1)
    next
      case (Cons d ds)
      then obtain l ls where sl: "splitlines cs = l # ls"
        using splitlines_Nil_iff [of cs] by (cases "splitlines cs") auto
      show ?thesis
      proof (cases ts)
        case Nil
        with False tok sl show ?thesis by (simp add: startswith_Cons)
      next
        case (Cons u us)
        with Cons.IH [of ts] Cons.prems tok sl \<open>cs = d # ds\<close> False
        show ?thesis by (simp add: startswith_Cons)
      qed
    qed
  qed
qed

subsection \<open>A clean text is cleaned to itself\<close>

lemma linebreak_space: "is_linebreak c \<Longrightarrow> is_space c"
  by (auto simp: is_linebreak_def is_space_def)

lemma sp_not_linebreak: "\<not> is_linebreak (CHR '' '')"
  by (simp add: is_linebreak_def)

lemma plain_no_linebreak:
  assumes "plain_spaces x" "c \<in> set x"
  shows "\<not> is_linebreak c"
proof
  assume l: "is_linebreak c"
  then have "is_space c" by (rule linebreak_space)
  with assms have "c = CHR '' ''" by (simp add: plain_spaces_def list_all_iff)
  with l sp_not_linebreak show False by simp
qed

lemma splitlines_single: "\<forall>c\<in>set x. \<not> is_linebreak c \<Longrightarrow> x \<noteq> [] \<Longrightarrow> splitlines x = [x]"
proof (induction x)
  case Nil
  then show ?case by simp
next
  case (Cons c cs)
  then show ?case by (cases cs) auto
qed

lemma collapse_fixed: "plain_spaces x \<Longrightarrow> \<not> has_ws_run x \<Longrightarrow> re_sub space_re '' '' x = x"
proof (induction x)
  case Nil
  then show ?case by (simp add: collapse_Nil)
next
  case (Cons c cs)
  then have ih: "re_sub space_re '' '' cs = cs"
    by (simp add: plain_spaces_def has_ws_run_Cons)
  show ?case
  proof (cases "is_space c")
    case False
    with ih show ?thesis by (simp add: collapse_Cons)
  next
    case True
    with Cons.prems have c: "c = CHR '' ''" by (simp add: plain_spaces_def)
    from True Cons.prems have "cs = [] \<or> \<not> is_space (hd cs)" by (auto simp: has_ws_run_Cons)
    then have "dropWhile is_space cs = cs" by (cases cs) auto
    with True c ih show ?thesis by (simp add: collapse_Cons)
  qed
qed

lemma rstrip_fixed: "s = [] \<or> \<not> is_space (last s) \<Longrightarrow> rstrip s = s"
  by (induction s) (auto split: if_splits)

lemma strip_fixed: "trimmed x \<Longrightarrow> strip x = x"
proof -
  assume t: "trimmed x"
  then have "lstrip x = x" by (cases x) (auto simp: trimmed_def lstrip_def)
  with t rstrip_fixed [of x] show ?thesis by (auto simp: strip_def trimmed_def)
qed

lemma clean_text_fixed:
  assumes "no_markup x" "plain_spaces x" "\<not> has_ws_run x" "trimmed x"
  shows "clean_text x = x"
  using assms
  by (simp add: clean_text_def Let_def no_markup_def re_sub_no_match collapse_fixed strip_fixed)

lemma clean_text_Nil: "clean_text [] = []"
  by (rule clean_text_fixed) (simp_all add: no_markup_def plain_spaces_def trimmed_def
      tag_match_Nil timing_re_def stamp_re_def align_re_def lit_def)

lemma clean_subtitles_normal:
  assumes "no_markup x" "plain_spaces x" "\<not> has_ws_run x" "trimmed x"
  shows "clean_subtitles x = Some (if header_start x then [] else x)"
proof (cases "x = []")
  case True
  then show ?thesis
    by (simp add: clean_subtitles_eq drop_if_starts_def clean_text_Nil header_start_def
        startswith_def)
next
  case False
  with assms(2) have "splitlines x = [x]"
    by (intro splitlines_single) (auto dest: plain_no_linebreak)
  with assms show ?thesis
    by (auto simp: clean_subtitles_eq drop_if_starts_def header_start_def clean_text_Nil
        clean_text_fixed startswith_def)
qed

text \<open>
  C6, as the code has it. For a text \<open>x\<close> that is itself an output of \<open>clean_subtitles\<close>
  and contains none of the three patterns, cleaning \<open>x\<close> gives \<open>x\<close> back, unless \<open>x\<close>
  begins with a header token, in which case it gives the empty text; either way cleaning
  the result once more changes nothing.
\<close>

theorem cleaning_clean_output_again:
  assumes "clean_subtitles z = Some x" and "no_markup x"
  shows "clean_subtitles x = Some (if header_start x then [] else x)
         \<and> Option.bind (clean_subtitles x) clean_subtitles = clean_subtitles x"
proof -
  from assms(1) obtain t where x: "x = clean_text t" by (auto simp: clean_subtitles_eq)
  have n: "clean_subtitles x = Some (if header_start x then [] else x)"
    using assms(2) unfolding x by (intro clean_subtitles_normal clean_text_whitespace)
  have e: "clean_subtitles [] = Some []"
    by (simp add: clean_subtitles_eq drop_if_starts_def clean_text_Nil)
  from n e show ?thesis by auto
qed

theorem cleaning_clean_output_again_witness:
  "clean_subtitles ''Kind <i>words</i>  \<newline>'' = Some ''Kind words''
   \<and> no_markup ''Kind words''
   \<and> clean_subtitles ''Kind words'' = Some ''Kind words''
   \<and> Option.bind (clean_subtitles ''Kind words'') clean_subtitles = clean_subtitles ''Kind words''"
proof -
  have a: "clean_subtitles ''Kind <i>words</i>  \<newline>'' = Some ''Kind words''" by code_simp
  have b: "no_markup ''Kind words''" by code_simp
  have c: "\<not> header_start ''Kind words''" by code_simp
  from cleaning_clean_output_again [OF a b] a b c show ?thesis by simp
qed

text \<open>
  C6, as the claim states it, fails: \<^verbatim>\<open>" WEBVTT"\<close> contains no tag, no timing range and no
  positioning artifact; cleaning it gives \<^verbatim>\<open>"WEBVTT"\<close>, and cleaning that gives the empty
  text, because the trimmed text now begins with the header token. So cleaning twice
  differs from cleaning once, and the clean, markup-free output \<^verbatim>\<open>"WEBVTT"\<close> is itself
  changed by cleaning.
\<close>

theorem markup_free_text_not_stable:
  "no_markup '' WEBVTT''
   \<and> clean_subtitles '' WEBVTT'' = Some ''WEBVTT''
   \<and> no_markup ''WEBVTT''
   \<and> clean_subtitles ''WEBVTT'' = Some []
   \<and> Option.bind (clean_subtitles '' WEBVTT'') clean_subtitles \<noteq> clean_subtitles '' WEBVTT''"
  by code_simp

subsection \<open>Collapsing and trimming, word by word\<close>

lemma fields_nonempty: "fields s \<noteq> []"
  by (induction s) (auto split: list.splits)

lemma fields_hd_tl: "fields s = hd (fields s) # tl (fields s)"
  using fields_nonempty [of s] by simp

lemma fields_Cons:
  "fields (c # cs) =
     (if is_space c then [] # fields cs else (c # hd (fields cs)) # tl (fields cs))"
  using fields_nonempty [of cs] by (cases "fields cs") auto

declare fields.simps(2) [simp del]

lemma hd_fields_Nil_iff: "hd (fields s) = [] \<longleftrightarrow> s = [] \<or> is_space (hd s)"
  by (cases s) (auto simp: fields_Cons)

lemma words_Nil: "words [] = []"
  by (simp add: words_def)

lemma words_Cons:
  "words (c # cs) =
     (if is_space c then words cs
      else (c # hd (fields cs)) # filter (\<lambda>w. w \<noteq> []) (tl (fields cs)))"
  by (simp add: words_def fields_Cons)

lemma words_split: "words s = filter (\<lambda>w. w \<noteq> []) (hd (fields s) # tl (fields s))"
  using fields_hd_tl [of s] by (simp add: words_def)

lemma words_dropWhile: "words (dropWhile is_space s) = words s"
  by (induction s) (auto simp: words_Cons)

lemma unwords_Nil_iff: "\<forall>w\<in>set ws. w \<noteq> [] \<Longrightarrow> unwords ws = [] \<longleftrightarrow> ws = []"
  by (cases ws rule: unwords.cases) auto

lemma unwords_Cons: "unwords (w # ws) = (if ws = [] then w else w @ CHR '' '' # unwords ws)"
  by (cases ws) auto

lemma rstrip_collapse_Cons:
  "rstrip (re_sub space_re '' '' (c # cs)) =
     (if \<not> is_space c then c # rstrip (re_sub space_re '' '' cs)
      else if cs \<noteq> [] \<and> is_space (hd cs) then rstrip (re_sub space_re '' '' cs)
      else if rstrip (re_sub space_re '' '' cs) = [] then []
      else CHR '' '' # rstrip (re_sub space_re '' '' cs))"
proof (cases "is_space c")
  case False
  then show ?thesis by (simp add: collapse_Cons)
next
  case True
  show ?thesis
  proof (cases "cs \<noteq> [] \<and> is_space (hd cs)")
    case True
    then obtain d ds where cs: "cs = d # ds" "is_space d" by (cases cs) auto
    with \<open>is_space c\<close> show ?thesis by (simp add: collapse_Cons)
  next
    case False
    then have "dropWhile is_space cs = cs" by (cases cs) auto
    with False \<open>is_space c\<close> show ?thesis by (simp add: collapse_Cons sp_space)
  qed
qed

lemma words_nonempty: "w \<in> set (words s) \<Longrightarrow> w \<noteq> []"
  by (simp add: words_def)

lemma unwords_words_Nil_iff: "unwords (words s) = [] \<longleftrightarrow> words s = []"
  using unwords_Nil_iff [of "words s"] words_nonempty by blast

lemma rstrip_collapse_spaced: "rstrip (re_sub space_re '' '' s) = spaced s"
proof (induction s)
  case Nil
  then show ?case by (simp add: collapse_Nil spaced_def words_Nil)
next
  case (Cons c cs)
  show ?case
  proof (cases "is_space c")
    case True
    show ?thesis
    proof (cases "cs \<noteq> [] \<and> is_space (hd cs)")
      case True
      with \<open>is_space c\<close> Cons.IH show ?thesis
        by (simp add: rstrip_collapse_Cons spaced_def words_Cons)
    next
      case False
      then have "spaced cs = unwords (words cs)" by (auto simp: spaced_def)
      with False \<open>is_space c\<close> Cons.IH show ?thesis
        by (auto simp: rstrip_collapse_Cons spaced_def words_Cons unwords_words_Nil_iff)
    qed
  next
    case False
    let ?w = "hd (fields cs)" and ?ws = "filter (\<lambda>w. w \<noteq> []) (tl (fields cs))"
    have w: "words (c # cs) = (c # ?w) # ?ws" using False by (simp add: words_Cons)
    have "spaced cs = (if ?ws = [] then ?w else ?w @ CHR '' '' # unwords ?ws)"
    proof (cases "?w = []")
      case True
      then have "cs = [] \<or> is_space (hd cs)" by (simp add: hd_fields_Nil_iff)
      moreover have "words cs = ?ws" using True words_split [of cs] by simp
      moreover have "cs = [] \<Longrightarrow> ?ws = []" by auto
      ultimately show ?thesis using True by (auto simp: spaced_def)
    next
      case False
      then have "\<not> (cs = [] \<or> is_space (hd cs))" by (simp add: hd_fields_Nil_iff)
      moreover have "words cs = ?w # ?ws" using False words_split [of cs] by simp
      ultimately show ?thesis by (auto simp: spaced_def unwords_Cons)
    qed
    with False Cons.IH w show ?thesis
      by (simp add: rstrip_collapse_Cons spaced_def unwords_Cons)
  qed
qed

lemma lstrip_collapse: "lstrip (re_sub space_re '' '' s) = re_sub space_re '' '' (lstrip s)"
proof (cases s)
  case Nil
  then show ?thesis by (simp add: lstrip_def collapse_Nil)
next
  case (Cons c cs)
  show ?thesis
  proof (cases "is_space c")
    case False
    with Cons show ?thesis by (simp add: lstrip_def collapse_Cons)
  next
    case True
    let ?d = "dropWhile is_space cs"
    have "lstrip (re_sub space_re '' '' ?d) = re_sub space_re '' '' ?d"
    proof (cases "?d = []")
      case True
      show ?thesis unfolding True by (simp add: collapse_Nil lstrip_def)
    next
      case False
      then have "\<not> is_space (hd ?d)" by (rule hd_dropWhile)
      with False show ?thesis by (simp add: collapse_head lstrip_def)
    qed
    with True Cons show ?thesis by (simp add: lstrip_def collapse_Cons sp_space)
  qed
qed

lemma strip_collapse_words: "strip (re_sub space_re '' '' s) = unwords (words s)"
proof -
  have "lstrip s = [] \<or> \<not> is_space (hd (lstrip s))"
    unfolding lstrip_def using hd_dropWhile [of is_space s] by blast
  then have "spaced (lstrip s) = unwords (words (lstrip s))"
    by (auto simp: spaced_def)
  then show ?thesis
    by (simp add: strip_def lstrip_collapse rstrip_collapse_spaced)
       (simp add: lstrip_def words_dropWhile)
qed

subsection \<open>Splitting into lines and joining again\<close>

lemma join_nl_Cons: "join_nl (l # ls) = (if ls = [] then l else l @ CHR 0x0A # join_nl ls)"
  by (cases ls) auto

lemma rejoin_Cons:
  "join_nl (splitlines (c # cs)) =
     (if is_linebreak c then
        (if c = CHR 0x0D \<and> cs \<noteq> [] \<and> hd cs = CHR 0x0A then join_nl (splitlines cs)
         else if cs = [] then [] else CHR 0x0A # join_nl (splitlines cs))
      else c # join_nl (splitlines cs))"
  by (cases "splitlines cs") (auto simp: join_nl_Cons splitlines_Nil_iff)

lemma lf_space: "is_space (CHR 0x0A)"
  by (simp add: is_space_def)

lemma lf_linebreak: "is_linebreak (CHR 0x0A)"
  by (simp add: is_linebreak_def)

lemma fields_rejoin:
  "hd (fields (join_nl (splitlines s))) = hd (fields s)
   \<and> filter (\<lambda>w. w \<noteq> []) (tl (fields (join_nl (splitlines s))))
       = filter (\<lambda>w. w \<noteq> []) (tl (fields s))"
proof (induction s)
  case Nil
  then show ?case by simp
next
  case (Cons c cs)
  let ?J = "join_nl (splitlines cs)"
  note ih = Cons.IH
  have all: "filter (\<lambda>w. w \<noteq> []) (fields ?J) = filter (\<lambda>w. w \<noteq> []) (fields cs)"
    using ih fields_hd_tl [of ?J] fields_hd_tl [of cs] by (metis filter.simps(2))
  show ?case
  proof (cases "is_linebreak c")
    case False
    then have g1: "join_nl (splitlines (c # cs)) = c # ?J"
      by (simp add: rejoin_Cons del: splitlines.simps)
    show ?thesis unfolding g1 using ih all by (simp add: fields_Cons)
  next
    case True
    then have sp: "is_space c" by (rule linebreak_space)
    have g2: "fields (c # cs) = [] # fields cs"
      using sp by (simp add: fields_Cons)
    show ?thesis
    proof (cases "c = CHR 0x0D \<and> cs \<noteq> [] \<and> hd cs = CHR 0x0A")
      case True
      then have h: "hd (fields cs) = []" by (simp add: hd_fields_Nil_iff lf_space)
      have "fields cs = [] # tl (fields cs)"
        using fields_hd_tl [of cs] unfolding h .
      then have t: "filter (\<lambda>w. w \<noteq> []) (fields cs) = filter (\<lambda>w. w \<noteq> []) (tl (fields cs))"
        by (metis (full_types) filter.simps(2))
      have g1: "join_nl (splitlines (c # cs)) = ?J"
        using True \<open>is_linebreak c\<close> by (simp add: rejoin_Cons del: splitlines.simps)
      have "hd (fields ?J) = []" using ih h by simp
      moreover have "filter (\<lambda>w. w \<noteq> []) (tl (fields ?J)) = filter (\<lambda>w. w \<noteq> []) (fields cs)"
        using ih t by simp
      ultimately show ?thesis unfolding g1 g2 by simp
    next
      case False
      show ?thesis
      proof (cases "cs = []")
        case True
        with False \<open>is_linebreak c\<close> have g1: "join_nl (splitlines (c # cs)) = []"
          by (simp add: rejoin_Cons del: splitlines.simps)
        show ?thesis unfolding g1 g2 using True by simp
      next
        case ne: False
        with False \<open>is_linebreak c\<close> have g1: "join_nl (splitlines (c # cs)) = CHR 0x0A # ?J"
          by (simp add: rejoin_Cons del: splitlines.simps)
        show ?thesis unfolding g1 g2 using all by (simp add: fields_Cons lf_space)
      qed
    qed
  qed
qed

lemma words_rejoin: "words (join_nl (splitlines s)) = words s"
  using fields_rejoin [of s] words_split [of s] words_split [of "join_nl (splitlines s)"]
  by simp

lemma rejoin_set: "set (join_nl (splitlines s)) \<subseteq> insert (CHR 0x0A) (set s)"
proof (induction s)
  case Nil
  then show ?case by simp
next
  case (Cons c cs)
  then show ?case by (auto simp: rejoin_Cons simp del: splitlines.simps split: if_splits)
qed

lemma rejoin_head:
  assumes "\<not> is_linebreak a" "join_nl (splitlines s) = a # t"
  shows "\<exists>cs. s = a # cs \<and> join_nl (splitlines cs) = t"
proof (cases s)
  case Nil
  with assms show ?thesis by simp
next
  case (Cons c cs)
  show ?thesis
  proof (cases "is_linebreak c")
    case False
    with assms Cons show ?thesis by (simp add: rejoin_Cons del: splitlines.simps)
  next
    case True
    have "join_nl (splitlines s) = [] \<or> hd (join_nl (splitlines s)) = CHR 0x0A"
    proof (cases "c = CHR 0x0D \<and> cs \<noteq> [] \<and> hd cs = CHR 0x0A")
      case True
      then obtain ds where "cs = CHR 0x0A # ds" by (cases cs) auto
      with True Cons \<open>is_linebreak c\<close> show ?thesis
        by (simp add: rejoin_Cons lf_linebreak del: splitlines.simps)
    next
      case False
      with True Cons show ?thesis by (auto simp: rejoin_Cons simp del: splitlines.simps)
    qed
    with assms lf_linebreak show ?thesis by auto
  qed
qed

lemma rejoin_prefix:
  assumes "\<forall>c\<in>set a. \<not> is_linebreak c"
  shows "join_nl (splitlines s) = a @ t \<Longrightarrow> \<exists>u. s = a @ u \<and> join_nl (splitlines u) = t"
  using assms
proof (induction a arbitrary: s)
  case Nil
  then show ?case by simp
next
  case (Cons x a)
  from Cons.prems have "\<not> is_linebreak x" "join_nl (splitlines s) = x # (a @ t)" by simp_all
  from rejoin_head [OF this] obtain cs where cs: "s = x # cs" "join_nl (splitlines cs) = a @ t"
    by blast
  from Cons.IH [OF cs(2)] Cons.prems obtain u where "cs = a @ u" "join_nl (splitlines u) = t"
    by auto
  with cs show ?case by simp
qed

lemma lt_ok_rejoin: "lt_ok s \<Longrightarrow> lt_ok (join_nl (splitlines s))"
proof (induction s)
  case Nil
  then show ?case by simp
next
  case (Cons c cs)
  let ?J = "join_nl (splitlines cs)"
  from Cons have ih: "lt_ok ?J" by simp
  show ?case
  proof (cases "is_linebreak c")
    case True
    with ih show ?thesis by (simp add: rejoin_Cons del: splitlines.simps)
  next
    case False
    have "(?J \<noteq> [] \<and> hd ?J = CHR ''>'') \<or> CHR ''>'' \<notin> set ?J" if "c = CHR ''<''"
    proof -
      from that Cons.prems have "(cs \<noteq> [] \<and> hd cs = CHR ''>'') \<or> CHR ''>'' \<notin> set cs" by simp
      then show ?thesis
      proof
        assume "cs \<noteq> [] \<and> hd cs = CHR ''>''"
        then obtain ds where "cs = CHR ''>'' # ds" by (cases cs) auto
        then show ?thesis by (simp add: rejoin_Cons is_linebreak_def del: splitlines.simps)
      next
        assume "CHR ''>'' \<notin> set cs"
        with rejoin_set [of cs] show ?thesis by auto
      qed
    qed
    with False ih show ?thesis by (simp add: rejoin_Cons del: splitlines.simps)
  qed
qed

lemma ones_rejoin:
  assumes "\<forall>i\<in>set p. \<exists>C. i = One C \<and> (\<forall>c. C c \<longrightarrow> \<not> is_linebreak c)"
  shows "re_match p (join_nl (splitlines s)) = Some t
           \<Longrightarrow> \<exists>u. re_match p s = Some u \<and> join_nl (splitlines u) = t"
  using assms
proof (induction p arbitrary: s)
  case Nil
  then show ?case by simp
next
  case (Cons i p)
  then obtain C where i: "i = One C" and C: "\<forall>c. C c \<longrightarrow> \<not> is_linebreak c" by auto
  from Cons.prems(1) i obtain a r where j: "join_nl (splitlines s) = a # r" "C a"
      "re_match p r = Some t"
    by (cases "join_nl (splitlines s)") (auto split: if_splits)
  with C have "\<not> is_linebreak a" by simp
  from rejoin_head [OF this j(1)] obtain cs where cs: "s = a # cs" "join_nl (splitlines cs) = r"
    by blast
  with j(3) Cons.IH [of cs] Cons.prems(2) obtain u where "re_match p cs = Some u"
      "join_nl (splitlines u) = t" by auto
  with cs i j(2) show ?case by simp
qed

lemma timing_ones: "\<forall>i\<in>set timing_re. \<exists>C. i = One C \<and> (\<forall>c. C c \<longrightarrow> \<not> is_linebreak c)"
  by (auto simp: timing_re_def stamp_re_def lit_def is_decimal_def is_linebreak_def)

lemma timing_match_rejoin:
  "re_match timing_re (join_nl (splitlines s)) \<noteq> None \<Longrightarrow> re_match timing_re s \<noteq> None"
  using ones_rejoin [OF timing_ones, of s] by auto

lemma until_iff:
  assumes "\<And>c. Q c = (\<not> P c)"
  shows "re_match [Plus P, One Q] s \<noteq> None \<longleftrightarrow> s \<noteq> [] \<and> P (hd s) \<and> (\<exists>c\<in>set s. \<not> P c)"
  by (auto simp: plus_until [OF assms] dropWhile_eq_Nil_conv)

lemma align_match_rejoin:
  assumes "re_match align_re (join_nl (splitlines s)) \<noteq> None"
  shows "re_match align_re s \<noteq> None"
proof -
  let ?q = "[Plus (\<lambda>x. x \<noteq> CHR ''%''), One (\<lambda>x. x = CHR ''%'')]"
  have t: "align_re = lit ''align:start position:'' @ ?q"
    by (simp add: align_re_def lit_def)
  from assms obtain r where "re_match align_re (join_nl (splitlines s)) = Some r" by auto
  then obtain t' where j: "join_nl (splitlines s) = ''align:start position:'' @ t'"
      and m: "re_match ?q t' = Some r"
    unfolding t lit_match_iff by blast
  have "\<forall>c\<in>set ''align:start position:''. \<not> is_linebreak c"
    by (simp add: is_linebreak_def)
  from rejoin_prefix [OF this j] obtain u where u: "s = ''align:start position:'' @ u"
      "join_nl (splitlines u) = t'" by blast
  have a: "t' \<noteq> []" "hd t' \<noteq> CHR ''%''" "CHR ''%'' \<in> set t'"
    using m until_iff [of "\<lambda>x. x = CHR ''%''" "\<lambda>x. x \<noteq> CHR ''%''" t'] by auto
  have "u \<noteq> []" using a u by auto
  moreover have "hd u \<noteq> CHR ''%''"
  proof
    assume "hd u = CHR ''%''"
    with \<open>u \<noteq> []\<close> obtain ds where "u = CHR ''%'' # ds" by (cases u) auto
    with u(2) a(2) show False by (auto simp: rejoin_Cons is_linebreak_def simp del: splitlines.simps)
  qed
  moreover have "CHR ''%'' \<in> set u" using a(3) u(2) rejoin_set [of u] by auto
  ultimately have "re_match ?q u \<noteq> None"
    using until_iff [of "\<lambda>x. x = CHR ''%''" "\<lambda>x. x \<noteq> CHR ''%''" u] by auto
  then obtain r' where "re_match ?q u = Some r'" by auto
  with u(1) have "re_match align_re s = Some r'" unfolding t lit_match_iff by blast
  then show ?thesis by simp
qed

lemma search_rejoin:
  assumes p: "p \<noteq> []" "\<not> first_ok p (CHR 0x0A)"
      and m: "\<And>s. re_match p (join_nl (splitlines s)) \<noteq> None \<Longrightarrow> re_match p s \<noteq> None"
  shows "re_search p (join_nl (splitlines s)) \<Longrightarrow> re_search p s"
proof (induction s)
  case Nil
  then show ?case by simp
next
  case (Cons c cs)
  have e: "re_match p [] = None" using p(1) by (cases "(p, [] :: string)" rule: re_match.cases) auto
  show ?case
  proof (cases "is_linebreak c")
    case True
    from Cons.prems True have "re_search p (join_nl (splitlines cs))"
      by (auto simp: rejoin_Cons e re_match_first_None [OF p(2)] simp del: splitlines.simps
          split: if_splits)
    with Cons.IH show ?thesis by simp
  next
    case False
    then have g: "join_nl (splitlines (c # cs)) = c # join_nl (splitlines cs)"
      by (simp add: rejoin_Cons del: splitlines.simps)
    from Cons.prems have "re_match p (join_nl (splitlines (c # cs))) \<noteq> None
        \<or> re_search p (join_nl (splitlines cs))"
      unfolding g by simp
    with m [of "c # cs"] Cons.IH show ?thesis by auto
  qed
qed

lemma no_markup_rejoin: "no_markup s \<Longrightarrow> no_markup (join_nl (splitlines s))"
  unfolding no_markup_def
proof (intro conjI)
  assume a: "\<not> re_search tag_re s \<and> \<not> re_search timing_re s \<and> \<not> re_search align_re s"
  then show "\<not> re_search tag_re (join_nl (splitlines s))"
    by (simp add: search_tag_iff lt_ok_rejoin)
  have "re_search timing_re (join_nl (splitlines s)) \<Longrightarrow> re_search timing_re s"
    by (rule search_rejoin [OF _ _ timing_match_rejoin])
       (simp_all add: timing_re_def stamp_re_def is_decimal_def)
  with a show "\<not> re_search timing_re (join_nl (splitlines s))" by blast
  have "re_search align_re (join_nl (splitlines s)) \<Longrightarrow> re_search align_re s"
    by (rule search_rejoin [OF _ _ align_match_rejoin]) (simp_all add: align_re_def lit_def)
  with a show "\<not> re_search align_re (join_nl (splitlines s))" by blast
qed

subsection \<open>Totality and the pattern-free case\<close>

lemma header_tokens_plain:
  "\<forall>c\<in>set ''WEBVTT''. \<not> is_linebreak c" "\<forall>c\<in>set ''Kind:''. \<not> is_linebreak c"
  "\<forall>c\<in>set ''Language:''. \<not> is_linebreak c"
  by (simp_all add: is_linebreak_def)

lemma no_header_kept:
  assumes "\<not> header_start s"
  shows "drop_if_starts ''Language:'' (drop_if_starts ''Kind:''
           (drop_if_starts ''WEBVTT'' (splitlines s))) = splitlines s"
proof (cases "splitlines s")
  case Nil
  then show ?thesis by (simp add: drop_if_starts_def)
next
  case (Cons l ls)
  then have s: "s \<noteq> []" by auto
  have l: "l = hd (splitlines s)" using Cons by simp
  have "\<not> startswith l ''WEBVTT''" "\<not> startswith l ''Kind:''" "\<not> startswith l ''Language:''"
    unfolding l
    using assms first_line_startswith [OF header_tokens_plain(1) _ s]
      first_line_startswith [OF header_tokens_plain(2) _ s]
      first_line_startswith [OF header_tokens_plain(3) _ s]
    by (simp_all add: header_start_def)
  with Cons show ?thesis by (simp add: drop_if_starts_def)
qed

text \<open>
  C9. \<open>clean_subtitles\<close> returns a text for every input (no \<^verbatim>\<open>IndexError\<close> can arise
  from \<^verbatim>\<open>lines[0]\<close> or \<^verbatim>\<open>lines.pop(0)\<close>), and the text it returns has no two whitespace
  characters in a row and no whitespace at either end. When the input begins with none
  of the header tokens and contains none of the three patterns, the result is the words
  of the input (its maximal pieces without whitespace), in their order, with one space
  between two words: the input with every run of whitespace collapsed to a single space
  and the whitespace at both ends removed.
\<close>

theorem clean_never_fails_and_collapses:
  "(\<exists>t. clean_subtitles s = Some t \<and> \<not> has_ws_run t \<and> trimmed t)
   \<and> (\<not> header_start s \<and> no_markup s \<longrightarrow> clean_subtitles s = Some (unwords (words s)))"
proof (intro conjI impI)
  show "\<exists>t. clean_subtitles s = Some t \<and> \<not> has_ws_run t \<and> trimmed t"
    by (simp add: clean_subtitles_eq clean_text_whitespace)
next
  assume a: "\<not> header_start s \<and> no_markup s"
  then have "no_markup (join_nl (splitlines s))" by (simp add: no_markup_rejoin)
  then have "clean_text (join_nl (splitlines s)) = unwords (words (join_nl (splitlines s)))"
    by (simp add: clean_text_def Let_def no_markup_def re_sub_no_match strip_collapse_words)
  with a show "clean_subtitles s = Some (unwords (words s))"
    by (simp add: clean_subtitles_eq no_header_kept words_rejoin)
qed

theorem clean_never_fails_and_collapses_witness:
  "\<not> header_start ''  Hello \<newline>\<newline>  world, Kind: friends \<newline>''
   \<and> no_markup ''  Hello \<newline>\<newline>  world, Kind: friends \<newline>''
   \<and> clean_subtitles ''  Hello \<newline>\<newline>  world, Kind: friends \<newline>'' = Some ''Hello world, Kind: friends''"
proof -
  let ?s = "''  Hello \<newline>\<newline>  world, Kind: friends \<newline>''"
  have h: "\<not> header_start ?s" by code_simp
  have n: "no_markup ?s" by code_simp
  have e: "unwords (words ?s) = ''Hello world, Kind: friends''" by code_simp
  from clean_never_fails_and_collapses [of ?s] h n e show ?thesis by simp
qed

text \<open>
  C7. The three header checks of lines 18 to 25 are the three checks of the
  specification applied one after the other, each to the first line the earlier ones
  left. When the first line begins with \<^verbatim>\<open>WEBVTT\<close> and the second with \<^verbatim>\<open>Language:\<close>
  (no \<^verbatim>\<open>Kind:\<close> line between them), exactly these two lines are dropped and the cleaned
  text is the five passes applied to the remaining lines, joined.
\<close>

theorem header_checks_are_independent:
  "strip_header ls = Some (drop_if_starts ''Language:'' (drop_if_starts ''Kind:''
                            (drop_if_starts ''WEBVTT'' ls)))
   \<and> (splitlines s = l0 # l1 # body \<and> startswith l0 ''WEBVTT'' \<and> startswith l1 ''Language:''
        \<longrightarrow> strip_header (splitlines s) = Some body
            \<and> clean_subtitles s = Some (clean_text (join_nl body)))"
proof (intro conjI impI)
  show "strip_header ls = Some (drop_if_starts ''Language:'' (drop_if_starts ''Kind:''
                            (drop_if_starts ''WEBVTT'' ls)))"
    by (rule strip_header_eq)
next
  assume a: "splitlines s = l0 # l1 # body \<and> startswith l0 ''WEBVTT'' \<and> startswith l1 ''Language:''"
  then have "\<not> startswith l1 ''Kind:''"
    by (cases l1) (auto simp: startswith_Cons startswith_Nil1)
  with a show "strip_header (splitlines s) = Some body"
    by (simp add: strip_header_eq drop_if_starts_def)
  then show "clean_subtitles s = Some (clean_text (join_nl body))"
    by (simp add: clean_subtitles_def)
qed

theorem header_checks_are_independent_witness:
  "splitlines ''WEBVTT\<newline>Language: en\<newline>\<newline>Hello <c>Ann</c>'' = [''WEBVTT'', ''Language: en'', [], ''Hello <c>Ann</c>'']
   \<and> startswith ''WEBVTT'' ''WEBVTT'' \<and> startswith ''Language: en'' ''Language:''
   \<and> strip_header (splitlines ''WEBVTT\<newline>Language: en\<newline>\<newline>Hello <c>Ann</c>'') = Some [[], ''Hello <c>Ann</c>'']
   \<and> clean_subtitles ''WEBVTT\<newline>Language: en\<newline>\<newline>Hello <c>Ann</c>'' = Some ''Hello Ann''"
proof -
  let ?s = "''WEBVTT\<newline>Language: en\<newline>\<newline>Hello <c>Ann</c>''"
  have a: "splitlines ?s = [''WEBVTT'', ''Language: en'', [], ''Hello <c>Ann</c>'']"
    by code_simp
  have b: "startswith ''WEBVTT'' ''WEBVTT''" "startswith ''Language: en'' ''Language:''"
    by code_simp+
  have c: "clean_text (join_nl [[], ''Hello <c>Ann</c>'']) = ''Hello Ann''"
    by code_simp
  have "splitlines ?s = ''WEBVTT'' # ''Language: en'' # [[], ''Hello <c>Ann</c>'']
        \<and> startswith ''WEBVTT'' ''WEBVTT'' \<and> startswith ''Language: en'' ''Language:''
      \<longrightarrow> strip_header (splitlines ?s) = Some [[], ''Hello <c>Ann</c>'']
        \<and> clean_subtitles ?s = Some (clean_text (join_nl [[], ''Hello <c>Ann</c>'']))"
    using header_checks_are_independent [of "[]" ?s "''WEBVTT''" "''Language: en''" "[[], ''Hello <c>Ann</c>'']"]
    by (rule conjunct2)
  with a b have r: "strip_header (splitlines ?s) = Some [[], ''Hello <c>Ann</c>'']
        \<and> clean_subtitles ?s = Some (clean_text (join_nl [[], ''Hello <c>Ann</c>'']))"
    by blast
  then have "clean_subtitles ?s = Some ''Hello Ann''" by (simp only: c)
  with a b r show ?thesis by blast
qed

subsection \<open>The positioning pass, in context\<close>

lemma until_lit_match_iff:
  "re_match (lit a @ [Plus (\<lambda>x. x \<noteq> e), One (\<lambda>x. x = e)]) s = Some r
     \<longleftrightarrow> (\<exists>w. s = a @ w @ e # r \<and> w \<noteq> [] \<and> e \<notin> set w)"
  unfolding lit_match_iff by (auto simp: plus_until_iff)

lemma subseq_after: "subseq q p2 \<Longrightarrow> subseq q (p1 @ x # p2)"
  using list_emb_append2 [of "(=)" q p2 "p1 @ [x]"] by simp

lemma first_split_unique:
  "x \<notin> set xs \<Longrightarrow> x \<notin> set xs' \<Longrightarrow> xs @ x # ys = xs' @ x # ys' \<Longrightarrow> xs = xs' \<and> ys = ys'"
proof (induction xs arbitrary: xs')
  case Nil
  then show ?case by (cases xs') auto
next
  case (Cons a xs)
  then show ?case by (cases xs') auto
qed

lemma until_sub_context:
  assumes a: "e \<notin> set a" and v: "v \<noteq> []" "e \<notin> set v"
  shows "\<exists>pre'. subseq pre' pre
           \<and> re_sub (lit a @ [Plus (\<lambda>x. x \<noteq> e), One (\<lambda>x. x = e)]) [] (pre @ a @ v @ e # post)
               = pre' @ re_sub (lit a @ [Plus (\<lambda>x. x \<noteq> e), One (\<lambda>x. x = e)]) [] post"
proof (induction "length pre" arbitrary: pre rule: less_induct)
  case less
  let ?p = "lit a @ [Plus (\<lambda>x. x \<noteq> e), One (\<lambda>x. x = e)]"
  have p: "?p \<noteq> []" by simp
  show ?case
  proof (cases pre)
    case Nil
    have "re_match ?p (a @ v @ e # post) = Some post"
      unfolding until_lit_match_iff using v by blast
    moreover have "a @ v @ e # post \<noteq> []" by simp
    ultimately have "re_sub ?p [] (a @ v @ e # post) = re_sub ?p [] post"
      using re_sub_Cons [OF p, of "[]" "hd (a @ v @ e # post)" "tl (a @ v @ e # post)"]
      by simp
    with Nil show ?thesis by simp
  next
    case (Cons x xs)
    let ?S = "pre @ a @ v @ e # post"
    have S: "?S = x # (xs @ a @ v @ e # post)" using Cons by simp
    show ?thesis
    proof (cases "re_match ?p ?S")
      case None
      from less [of xs] Cons obtain q where q: "subseq q xs"
          "re_sub ?p [] (xs @ a @ v @ e # post) = q @ re_sub ?p [] post" by auto
      from None have "re_sub ?p [] ?S = (x # q) @ re_sub ?p [] post"
        unfolding S using q(2) by (simp add: re_sub_Cons [OF p])
      moreover have "subseq (x # q) pre" using q(1) Cons by simp
      ultimately show ?thesis by blast
    next
      case (Some r)
      then obtain w where w: "?S = a @ w @ e # r" "w \<noteq> []" "e \<notin> set w"
        unfolding until_lit_match_iff by blast
      have sub: "re_sub ?p [] ?S = re_sub ?p [] r"
        using Some unfolding S by (simp add: re_sub_Cons [OF p])
      have l: "?S = (a @ w) @ e # r" using w(1) by simp
      have nl: "e \<notin> set (a @ w)" using w(3) a by simp
      show ?thesis
      proof (cases "e \<in> set pre")
        case False
        have "?S = (pre @ a @ v) @ e # post" by simp
        moreover have "e \<notin> set (pre @ a @ v)" using False v(2) a by simp
        ultimately have "(a @ w) @ e # r = (pre @ a @ v) @ e # post" using l by simp
        with nl \<open>e \<notin> set (pre @ a @ v)\<close> have "r = post"
          by (blast dest: first_split_unique)
        with sub have "re_sub ?p [] ?S = [] @ re_sub ?p [] post" by simp
        moreover have "subseq [] pre" by simp
        ultimately show ?thesis by blast
      next
        case True
        then obtain p1 p2 where pp: "pre = p1 @ e # p2" "e \<notin> set p1"
          by (meson split_list_first)
        then have "?S = p1 @ e # (p2 @ a @ v @ e # post)" by simp
        with l have "(a @ w) @ e # r = p1 @ e # (p2 @ a @ v @ e # post)" by simp
        with nl pp(2) have r: "r = p2 @ a @ v @ e # post"
          by (blast dest: first_split_unique)
        have "length p2 < length pre" using pp(1) by simp
        from less [OF this] obtain q where q: "subseq q p2"
          "re_sub ?p [] (p2 @ a @ v @ e # post) = q @ re_sub ?p [] post" by auto
        have "subseq q pre" unfolding pp(1) using q(1) by (rule subseq_after)
        with q(2) r sub show ?thesis by auto
      qed
    qed
  qed
qed

lemma align_sub_context:
  assumes "v \<noteq> []" "CHR ''%'' \<notin> set v"
  shows "\<exists>pre'. subseq pre' pre
           \<and> re_sub align_re [] (pre @ ''align:start position:'' @ v @ ''%'' @ post)
               = pre' @ re_sub align_re [] post"
proof -
  have t: "align_re = lit ''align:start position:'' @ [Plus (\<lambda>x. x \<noteq> CHR ''%''), One (\<lambda>x. x = CHR ''%'')]"
    by (simp add: align_re_def lit_def)
  have "CHR ''%'' \<notin> set ''align:start position:''" by simp
  from until_sub_context [OF this assms, of pre post] show ?thesis
    unfolding t by simp
qed

subsection \<open>Texts of markup and whitespace only\<close>

lemma plus_then:
  assumes "\<And>c. Q c \<Longrightarrow> \<not> P c"
  shows "re_match [Plus P, One Q] s =
     (if s \<noteq> [] \<and> P (hd s) \<and> dropWhile P s \<noteq> [] \<and> Q (hd (dropWhile P s))
      then Some (tl (dropWhile P s)) else None)"
proof (induction s)
  case Nil
  then show ?case by simp
next
  case (Cons x xs)
  show ?case
  proof (cases "P x")
    case False
    then show ?thesis by simp
  next
    case True
    show ?thesis
    proof (cases xs)
      case Nil
      with True show ?thesis by simp
    next
      case (Cons y ys)
      with True Cons.IH assms show ?thesis by (auto split: option.splits)
    qed
  qed
qed

lemma align_num_match_iff:
  "re_match align_num_re s = Some r
     \<longleftrightarrow> (\<exists>n. s = ''align:start position:'' @ n @ CHR ''%'' # r \<and> n \<noteq> [] \<and> list_all is_decimal n)"
proof -
  have t: "align_num_re = lit ''align:start position:'' @ [Plus is_decimal, One (\<lambda>x. x = CHR ''%'')]"
    by (simp add: align_num_re_def lit_def)
  have q: "\<And>c. c = CHR ''%'' \<Longrightarrow> \<not> is_decimal c" by (simp add: is_decimal_def)
  have "re_match [Plus is_decimal, One (\<lambda>x. x = CHR ''%'')] u = Some r
      \<longleftrightarrow> (\<exists>n. u = n @ CHR ''%'' # r \<and> n \<noteq> [] \<and> list_all is_decimal n)" for u
  proof
    assume "re_match [Plus is_decimal, One (\<lambda>x. x = CHR ''%'')] u = Some r"
    then have a: "u \<noteq> []" "is_decimal (hd u)" "dropWhile is_decimal u \<noteq> []"
        "hd (dropWhile is_decimal u) = CHR ''%''" "r = tl (dropWhile is_decimal u)"
      by (auto simp: plus_then [of "\<lambda>x. x = CHR ''%''" is_decimal, OF q] split: if_splits)
    have "u = takeWhile is_decimal u @ CHR ''%'' # r"
      using a(3,4,5) by (metis takeWhile_dropWhile_id list.collapse)
    moreover have "takeWhile is_decimal u \<noteq> []" using a(1,2) by (cases u) auto
    moreover have "list_all is_decimal (takeWhile is_decimal u)"
      by (auto simp: list_all_iff dest: set_takeWhileD)
    ultimately show "\<exists>n. u = n @ CHR ''%'' # r \<and> n \<noteq> [] \<and> list_all is_decimal n" by blast
  next
    assume "\<exists>n. u = n @ CHR ''%'' # r \<and> n \<noteq> [] \<and> list_all is_decimal n"
    then obtain n where n: "u = n @ CHR ''%'' # r" "n \<noteq> []" "list_all is_decimal n" by blast
    then have d: "dropWhile is_decimal u = CHR ''%'' # r"
      by (simp add: dropWhile_append3 list_all_iff is_decimal_def)
    have "is_decimal (hd u)" using n by (cases n) auto
    with d n show "re_match [Plus is_decimal, One (\<lambda>x. x = CHR ''%'')] u = Some r"
      by (simp add: plus_then [of "\<lambda>x. x = CHR ''%''" is_decimal, OF q])
  qed
  then show ?thesis unfolding t lit_match_iff by auto
qed

lemma ones_split:
  assumes "\<forall>i\<in>set p. \<exists>C. i = One C"
  shows "re_match p s = Some r \<Longrightarrow> \<exists>m. s = m @ r \<and> length m = length p \<and> re_match p m = Some []"
  using assms
proof (induction p arbitrary: s)
  case Nil
  then show ?case by simp
next
  case (Cons i p)
  then obtain C where i: "i = One C" by auto
  from Cons.prems(1) i obtain x xs where s: "s = x # xs" "C x" "re_match p xs = Some r"
    by (cases s) (auto split: if_splits)
  from Cons.IH [OF s(3)] Cons.prems(2) obtain m where "xs = m @ r" "length m = length p"
      "re_match p m = Some []" by auto
  with s i have "s = (x # m) @ r \<and> length (x # m) = length (i # p) \<and> re_match (i # p) (x # m) = Some []"
    by simp
  then show ?case by blast
qed

lemma ones_extend:
  assumes "\<forall>i\<in>set p. \<exists>C. i = One C"
  shows "re_match p m = Some [] \<Longrightarrow> re_match p (m @ r) = Some r"
  using assms
proof (induction p arbitrary: m)
  case Nil
  then show ?case by simp
next
  case (Cons i p)
  then obtain C where i: "i = One C" by auto
  from Cons.prems(1) i obtain x xs where m: "m = x # xs" "C x" "re_match p xs = Some []"
    by (cases m) (auto split: if_splits)
  from Cons.IH [OF m(3)] Cons.prems(2) have "re_match p (xs @ r) = Some r" by auto
  with m i show ?case by simp
qed

lemma ones_chars:
  assumes "\<forall>i\<in>set p. \<exists>C. i = One C \<and> (\<forall>c. C c \<longrightarrow> K c)"
  shows "re_match p m = Some [] \<Longrightarrow> \<forall>c\<in>set m. K c"
  using assms
proof (induction p arbitrary: m)
  case Nil
  then show ?case by simp
next
  case (Cons i p)
  then obtain C where i: "i = One C" "\<forall>c. C c \<longrightarrow> K c" by auto
  from Cons.prems(1) i obtain x xs where m: "m = x # xs" "C x" "re_match p xs = Some []"
    by (cases m) (auto split: if_splits)
  from Cons.IH [OF m(3)] Cons.prems(2) have "\<forall>c\<in>set xs. K c" by auto
  with m i show ?case by simp
qed

lemma timing_ones_chars: "\<forall>i\<in>set timing_re. \<exists>C. i = One C \<and> (\<forall>c. C c \<longrightarrow> timing_char c)"
  by (auto simp: timing_re_def stamp_re_def lit_def timing_char_def)

lemma timing_only_ones: "\<forall>i\<in>set timing_re. \<exists>C. i = One C"
  using timing_ones_chars by blast

lemma timing_token:
  assumes "re_match timing_re s = Some r"
  shows "\<exists>m. s = m @ r \<and> m \<noteq> [] \<and> re_match timing_re m = Some []
           \<and> (\<forall>c\<in>set m. timing_char c) \<and> is_decimal (hd m)"
proof -
  from ones_split [OF timing_only_ones assms] obtain m where m: "s = m @ r"
      "length m = length timing_re" "re_match timing_re m = Some []" by blast
  from m(2) have ne: "m \<noteq> []" by (auto simp: timing_re_def stamp_re_def)
  then obtain x xs where x: "m = x # xs" by (cases m) auto
  from m(3) have "first_ok timing_re x" unfolding x by (rule re_match_first)
  then have "is_decimal (hd m)" using x by (simp add: timing_re_def stamp_re_def)
  with m ne ones_chars [OF timing_ones_chars m(3)] show ?thesis by blast
qed

lemma sub_keeps_prefix:
  assumes "p \<noteq> []" "\<forall>c\<in>set a. \<not> first_ok p c"
  shows "re_sub p repl (a @ s) = a @ re_sub p repl s"
  using assms(2) by (induction a) (simp_all add: sub_keeps_head [OF assms(1)])

lemma tokens_only_token:
  assumes "m \<noteq> []" "\<not> is_space (hd m)" "first_match ps (m @ X) = Some X" "tokens_only ps X"
  shows "tokens_only ps (m @ X)"
  using assms by (cases m) auto

lemma pass_over_tokens:
  assumes p: "p \<noteq> []" "\<And>c. is_space c \<Longrightarrow> \<not> first_ok p c"
      and rem: "\<And>s r. re_match q s = Some r \<Longrightarrow> re_match p s = Some r"
      and keep: "\<And>s r. re_match q s = None \<Longrightarrow> first_match ps s = Some r \<Longrightarrow>
          \<exists>m. s = m @ r \<and> m \<noteq> [] \<and> \<not> is_space (hd m)
             \<and> re_sub p [] (m @ r) = m @ re_sub p [] r
             \<and> (\<forall>X. first_match ps (m @ X) = Some X)"
  shows "tokens_only (q # ps) s \<Longrightarrow> tokens_only ps (re_sub p [] s)"
proof (induction "length s" arbitrary: s rule: less_induct)
  case less
  show ?case
  proof (cases s)
    case Nil
    then show ?thesis by (simp add: re_sub_Nil [OF p(1)])
  next
    case (Cons c cs)
    show ?thesis
    proof (cases "is_space c")
      case True
      with less.prems Cons have "tokens_only (q # ps) cs" by simp
      with less.hyps [of cs] Cons have "tokens_only ps (re_sub p [] cs)" by simp
      with True p(2) [OF True] Cons show ?thesis by (simp add: sub_keeps_head [OF p(1)])
    next
      case False
      with less.prems Cons obtain r where r: "first_match (q # ps) s = Some r"
          "length r < length s" "tokens_only (q # ps) r"
        by (auto split: option.splits if_splits)
      from less.hyps [OF r(2) r(3)] have ih: "tokens_only ps (re_sub p [] r)" .
      show ?thesis
      proof (cases "re_match q s")
        case (Some r')
        with r(1) have "r' = r" by simp
        with Some rem have "re_match p s = Some r" by simp
        with Cons ih show ?thesis by (simp add: re_sub_Cons [OF p(1)])
      next
        case None
        with r(1) have "first_match ps s = Some r" by simp
        from keep [OF None this] obtain m where m: "s = m @ r" "m \<noteq> []" "\<not> is_space (hd m)"
            "re_sub p [] (m @ r) = m @ re_sub p [] r"
            "\<forall>X. first_match ps (m @ X) = Some X" by blast
        from m(5) have "first_match ps (m @ re_sub p [] r) = Some (re_sub p [] r)" by blast
        from tokens_only_token [OF m(2,3) this ih] m(1,4) show ?thesis by simp
      qed
    qed
  qed
qed

lemma lt_not_space: "\<not> is_space (CHR ''<'')"
  by (simp add: is_space_def)

lemma decimal_not_space: "is_decimal c \<Longrightarrow> \<not> is_space c"
  by (auto simp: is_decimal_def is_space_def)

lemma decimal_not_lt: "is_decimal c \<Longrightarrow> c \<noteq> CHR ''<''"
  by (auto simp: is_decimal_def)

lemma decimal_not_percent: "is_decimal c \<Longrightarrow> c \<noteq> CHR ''%''"
  by (auto simp: is_decimal_def)

lemma timing_char_not_lt: "timing_char c \<Longrightarrow> c \<noteq> CHR ''<''"
  by (auto simp: timing_char_def is_decimal_def)

lemma timing_char_not_linebreak: "timing_char c \<Longrightarrow> \<not> is_linebreak c"
  by (auto simp: timing_char_def is_decimal_def is_linebreak_def)

lemma first_ok_tag: "first_ok tag_re c \<longleftrightarrow> c = CHR ''<''"
  by (simp add: tag_re_def lit_def)

lemma first_ok_timing: "first_ok timing_re c \<longleftrightarrow> is_decimal c"
  by (simp add: timing_re_def stamp_re_def)

lemma first_ok_align: "first_ok align_re c \<longleftrightarrow> c = CHR ''a''"
  by (simp add: align_re_def lit_def)

lemma first_ok_align_num: "first_ok align_num_re c \<longleftrightarrow> c = CHR ''a''"
  by (simp add: align_num_re_def lit_def)

lemma timing_re_nonempty: "timing_re \<noteq> []"
  by (simp add: timing_re_def stamp_re_def)

lemma align_num_token:
  assumes "re_match align_num_re s = Some r"
  shows "\<exists>n. s = (''align:start position:'' @ n @ ''%'') @ r \<and> n \<noteq> [] \<and> list_all is_decimal n"
  using assms unfolding align_num_match_iff by auto

lemma align_num_extend:
  assumes "n \<noteq> []" "list_all is_decimal n"
  shows "re_match align_num_re ((''align:start position:'' @ n @ ''%'') @ X) = Some X"
  unfolding align_num_match_iff using assms by auto

lemma first_match_skip: "re_match p s = None \<Longrightarrow> first_match (p # ps) s = first_match ps s"
  by simp

lemma first_match_single: "first_match [p] s = re_match p s"
  by (cases "re_match p s") simp_all

lemma kept_token:
  assumes "s = m @ r" "m \<noteq> []" "\<not> is_space (hd m)"
      "re_sub p [] (m @ r) = m @ re_sub p [] r"
      "\<And>X. first_match ps (m @ X) = Some X"
  shows "\<exists>m. s = m @ r \<and> m \<noteq> [] \<and> \<not> is_space (hd m)
          \<and> re_sub p [] (m @ r) = m @ re_sub p [] r
          \<and> (\<forall>X. first_match ps (m @ X) = Some X)"
  using assms by (intro exI [of _ m]) simp

lemma timing_kept_by_tag_pass:
  assumes t: "re_match timing_re s = Some r"
  shows "\<exists>m. s = m @ r \<and> m \<noteq> [] \<and> \<not> is_space (hd m)
          \<and> re_sub tag_re [] (m @ r) = m @ re_sub tag_re [] r
          \<and> (\<forall>X. first_match [timing_re, align_num_re] (m @ X) = Some X)"
proof -
  from timing_token [OF t] obtain m where m: "s = m @ r" "m \<noteq> []"
      "re_match timing_re m = Some []" "\<forall>c\<in>set m. timing_char c" "is_decimal (hd m)"
    by blast
  have "\<forall>c\<in>set m. \<not> first_ok tag_re c"
    using m(4) timing_char_not_lt by (auto simp: first_ok_tag)
  then have k: "re_sub tag_re [] (m @ r) = m @ re_sub tag_re [] r"
    by (rule sub_keeps_prefix [OF tag_re_nonempty])
  have f: "first_match [timing_re, align_num_re] (m @ X) = Some X" for X
    using ones_extend [OF timing_only_ones m(3), of X] by simp
  from m(1,2) decimal_not_space [OF m(5)] k f show ?thesis by (rule kept_token)
qed

lemma align_num_kept_by_tag_pass:
  assumes t: "re_match align_num_re s = Some r"
  shows "\<exists>m. s = m @ r \<and> m \<noteq> [] \<and> \<not> is_space (hd m)
          \<and> re_sub tag_re [] (m @ r) = m @ re_sub tag_re [] r
          \<and> (\<forall>X. first_match [timing_re, align_num_re] (m @ X) = Some X)"
proof -
  from align_num_token [OF t] obtain n where n: "s = (''align:start position:'' @ n @ ''%'') @ r"
      "n \<noteq> []" "list_all is_decimal n" by blast
  define m where "m = ''align:start position:'' @ n @ ''%''"
  have hd: "hd m = CHR ''a''" and ne: "m \<noteq> []" by (simp_all add: m_def)
  have a: "\<forall>c\<in>set n. c \<noteq> CHR ''<''"
  proof
    fix c assume "c \<in> set n"
    with n(3) have "is_decimal c" by (simp add: list_all_iff)
    then show "c \<noteq> CHR ''<''" by (rule decimal_not_lt)
  qed
  have "\<forall>c\<in>set m. \<not> first_ok tag_re c"
    unfolding m_def first_ok_tag using a by simp
  then have k: "re_sub tag_re [] (m @ r) = m @ re_sub tag_re [] r"
    by (rule sub_keeps_prefix [OF tag_re_nonempty])
  have f: "first_match [timing_re, align_num_re] (m @ X) = Some X" for X
  proof -
    obtain m' where "m = CHR ''a'' # m'" using hd ne by (cases m) auto
    then have "re_match timing_re (m @ X) = None"
      by (simp add: re_match_first_None first_ok_timing is_decimal_def)
    moreover have "re_match align_num_re (m @ X) = Some X"
      unfolding m_def by (rule align_num_extend [OF n(2,3)])
    ultimately show ?thesis by (simp only: first_match_skip first_match_single)
  qed
  have sp: "\<not> is_space (hd m)" unfolding hd by (simp add: is_space_def)
  from n(1) have "s = m @ r" by (simp add: m_def)
  from this ne sp k f show ?thesis by (rule kept_token)
qed

lemma tag_pass_tokens:
  assumes "tokens_only [tag_re, timing_re, align_num_re] s"
  shows "tokens_only [timing_re, align_num_re] (re_sub tag_re [] s)"
proof (rule pass_over_tokens [OF tag_re_nonempty _ _ _ assms])
  fix c assume "is_space c"
  then show "\<not> first_ok tag_re c" using lt_not_space by (auto simp: first_ok_tag)
next
  fix s r assume "re_match tag_re s = Some r"
  then show "re_match tag_re s = Some r" .
next
  fix s r
  assume "re_match tag_re s = None" and f: "first_match [timing_re, align_num_re] s = Some r"
  show "\<exists>m. s = m @ r \<and> m \<noteq> [] \<and> \<not> is_space (hd m)
          \<and> re_sub tag_re [] (m @ r) = m @ re_sub tag_re [] r
          \<and> (\<forall>X. first_match [timing_re, align_num_re] (m @ X) = Some X)"
  proof (cases "re_match timing_re s")
    case (Some r')
    with f have "re_match timing_re s = Some r" by simp
    then show ?thesis by (rule timing_kept_by_tag_pass)
  next
    case None
    with f have "re_match align_num_re s = Some r"
      by (simp only: first_match_skip first_match_single)
    then show ?thesis by (rule align_num_kept_by_tag_pass)
  qed
qed

lemma three_ones:
  assumes "re_match (One A # One B # One C # q) u = Some r"
  shows "\<exists>a b c t. u = a # b # c # t \<and> B b \<and> C c"
proof -
  from assms obtain a u1 where 1: "u = a # u1" by (cases u) auto
  with assms have m1: "re_match (One B # One C # q) u1 = Some r" by (simp split: if_splits)
  then obtain b u2 where 2: "u1 = b # u2" by (cases u1) auto
  with m1 have b: "B b" and m2: "re_match (One C # q) u2 = Some r"
    by (simp_all split: if_splits)
  then obtain c u3 where 3: "u2 = c # u3" by (cases u2) auto
  with m2 have "C c" by (simp split: if_splits)
  with 1 2 3 b show ?thesis by blast
qed

lemma timing_starts:
  assumes "re_match timing_re u = Some r"
  shows "\<exists>a b t. u = a # b # CHR '':'' # t \<and> is_decimal b"
proof -
  obtain q where "timing_re = One is_decimal # One is_decimal # One (\<lambda>x. x = CHR '':'') # q"
    by (simp add: timing_re_def stamp_re_def lit_def)
  with assms three_ones [of is_decimal is_decimal "\<lambda>x. x = CHR '':''" q u r]
  show ?thesis by auto
qed

lemma align_re_nonempty: "align_re \<noteq> []"
  by (simp add: align_re_def)

lemma digits_no_timing:
  assumes "list_all is_decimal n"
  shows "re_sub timing_re [] (n @ CHR ''%'' # s) = n @ CHR ''%'' # re_sub timing_re [] s"
  using assms
proof (induction n)
  case Nil
  show ?case
    by (simp add: sub_keeps_head [OF timing_re_nonempty] first_ok_timing is_decimal_def)
next
  case (Cons d n)
  have "re_match timing_re (d # n @ CHR ''%'' # s) = None"
  proof (cases "re_match timing_re (d # n @ CHR ''%'' # s)")
    case None
    then show ?thesis .
  next
    case (Some r)
    from timing_starts [OF Some] obtain a b t where
      e: "d # n @ CHR ''%'' # s = a # b # CHR '':'' # t" and b: "is_decimal b" by blast
    have False
    proof (cases n)
      case Nil
      with e have "b = CHR ''%''" by simp
      with b show False by (simp add: is_decimal_def)
    next
      case (Cons x xs)
      note n = this
      show False
      proof (cases xs)
        case Nil
        with e n show False by simp
      next
        case ys: (Cons y ys)
        with e n have "y = CHR '':''" by simp
        moreover from Cons.prems n ys have "is_decimal y" by simp
        ultimately show False by (simp add: is_decimal_def)
      qed
    qed
    then show ?thesis ..
  qed
  with Cons show ?case by (simp add: re_sub_Cons [OF timing_re_nonempty])
qed

lemma align_num_kept_by_timing_pass:
  assumes t: "re_match align_num_re s = Some r"
  shows "\<exists>m. s = m @ r \<and> m \<noteq> [] \<and> \<not> is_space (hd m)
          \<and> re_sub timing_re [] (m @ r) = m @ re_sub timing_re [] r
          \<and> (\<forall>X. first_match [align_num_re] (m @ X) = Some X)"
proof -
  from align_num_token [OF t] obtain n where n: "s = (''align:start position:'' @ n @ ''%'') @ r"
      "n \<noteq> []" "list_all is_decimal n" by blast
  define m where "m = ''align:start position:'' @ n @ ''%''"
  have hd: "hd m = CHR ''a''" and ne: "m \<noteq> []" by (simp_all add: m_def)
  have "\<forall>c\<in>set ''align:start position:''. \<not> first_ok timing_re c"
    by (simp add: first_ok_timing is_decimal_def)
  from sub_keeps_prefix [OF timing_re_nonempty this, of "[]" "n @ CHR ''%'' # r"]
  have "re_sub timing_re [] (''align:start position:'' @ n @ CHR ''%'' # r)
      = ''align:start position:'' @ re_sub timing_re [] (n @ CHR ''%'' # r)" .
  also have "\<dots> = ''align:start position:'' @ n @ CHR ''%'' # re_sub timing_re [] r"
    by (simp only: digits_no_timing [OF n(3)])
  finally have k: "re_sub timing_re [] (m @ r) = m @ re_sub timing_re [] r"
    by (simp add: m_def)
  have f: "first_match [align_num_re] (m @ X) = Some X" for X
    unfolding m_def first_match_single by (rule align_num_extend [OF n(2,3)])
  have sp: "\<not> is_space (hd m)" unfolding hd by (simp add: is_space_def)
  from n(1) have "s = m @ r" by (simp add: m_def)
  from this ne sp k f show ?thesis by (rule kept_token)
qed

lemma timing_pass_tokens:
  assumes "tokens_only [timing_re, align_num_re] s"
  shows "tokens_only [align_num_re] (re_sub timing_re [] s)"
proof (rule pass_over_tokens [OF timing_re_nonempty _ _ _ assms])
  fix c assume "is_space c"
  then show "\<not> first_ok timing_re c" using decimal_not_space by (auto simp: first_ok_timing)
next
  fix s r assume "re_match timing_re s = Some r"
  then show "re_match timing_re s = Some r" .
next
  fix s r
  assume "re_match timing_re s = None" and f: "first_match [align_num_re] s = Some r"
  from f have "re_match align_num_re s = Some r" by (simp only: first_match_single)
  then show "\<exists>m. s = m @ r \<and> m \<noteq> [] \<and> \<not> is_space (hd m)
          \<and> re_sub timing_re [] (m @ r) = m @ re_sub timing_re [] r
          \<and> (\<forall>X. first_match [align_num_re] (m @ X) = Some X)"
    by (rule align_num_kept_by_timing_pass)
qed

lemma align_pass_tokens:
  assumes "tokens_only [align_num_re] s"
  shows "tokens_only [] (re_sub align_re [] s)"
proof (rule pass_over_tokens [OF align_re_nonempty _ _ _ assms])
  fix c assume "is_space c"
  then show "\<not> first_ok align_re c" by (auto simp: first_ok_align is_space_def)
next
  fix s r assume "re_match align_num_re s = Some r"
  then obtain n where "s = ''align:start position:'' @ n @ CHR ''%'' # r" "n \<noteq> []"
      "list_all is_decimal n"
    unfolding align_num_match_iff by blast
  moreover from this have "CHR ''%'' \<notin> set n"
    using decimal_not_percent by (auto simp: list_all_iff)
  ultimately show "re_match align_re s = Some r" unfolding align_match_iff by blast
next
  fix s r
  assume "first_match [] s = Some r"
  then show "\<exists>m. s = m @ r \<and> m \<noteq> [] \<and> \<not> is_space (hd m)
          \<and> re_sub align_re [] (m @ r) = m @ re_sub align_re [] r
          \<and> (\<forall>X. first_match [] (m @ X) = Some X)" by simp
qed

lemma no_tokens_all_space: "tokens_only [] u \<Longrightarrow> \<forall>c\<in>set u. is_space c"
  by (induction u) (auto split: if_splits)

lemma words_all_space: "\<forall>c\<in>set u. is_space c \<Longrightarrow> words u = []"
  by (induction u) (auto simp: words_Cons words_Nil)

lemma clean_text_markup_only: "markup_only t \<Longrightarrow> clean_text t = []"
proof -
  assume "markup_only t"
  then have "tokens_only [] (re_sub align_re [] (re_sub timing_re [] (re_sub tag_re [] t)))"
    unfolding markup_only_def
    by (intro align_pass_tokens timing_pass_tokens tag_pass_tokens)
  then have "words (re_sub align_re [] (re_sub timing_re [] (re_sub tag_re [] t))) = []"
    by (intro words_all_space no_tokens_all_space)
  then show ?thesis
    by (simp add: clean_text_def Let_def strip_collapse_words)
qed

lemma rejoin_plain_prefix:
  "\<forall>c\<in>set m. \<not> is_linebreak c \<Longrightarrow> join_nl (splitlines (m @ r)) = m @ join_nl (splitlines r)"
proof (induction m)
  case Nil
  then show ?case by simp
next
  case (Cons c m)
  then have "join_nl (splitlines (m @ r)) = m @ join_nl (splitlines r)" by simp
  moreover from Cons.prems have "\<not> is_linebreak c" by simp
  ultimately show ?case
    using rejoin_Cons [of c "m @ r"] by simp
qed

lemma rejoin_until:
  assumes e: "\<not> is_linebreak e"
  shows "v \<noteq> [] \<Longrightarrow> e \<notin> set v
     \<Longrightarrow> \<exists>v'. v' \<noteq> [] \<and> e \<notin> set v' \<and> join_nl (splitlines (v @ e # r)) = v' @ e # join_nl (splitlines r)"
proof (induction v)
  case Nil
  then show ?case by simp
next
  case (Cons x v)
  have er: "join_nl (splitlines (e # r)) = e # join_nl (splitlines r)"
    using rejoin_Cons [of e r] e by simp
  have lf: "e \<noteq> CHR 0x0A" using e lf_linebreak by auto
  have xe: "x \<noteq> e" using Cons.prems by auto
  show ?case
  proof (cases "v = []")
    case True
    have "join_nl (splitlines (x # e # r)) = (if is_linebreak x then CHR 0x0A else x) # e # join_nl (splitlines r)"
      using rejoin_Cons [of x "e # r"] er lf by simp
    then have "join_nl (splitlines ((x # v) @ e # r))
        = [if is_linebreak x then CHR 0x0A else x] @ e # join_nl (splitlines r)"
      using True by simp
    moreover have "e \<notin> set [if is_linebreak x then CHR 0x0A else x]" using xe lf by simp
    ultimately show ?thesis by blast
  next
    case False
    with Cons obtain v' where v': "v' \<noteq> []" "e \<notin> set v'"
        "join_nl (splitlines (v @ e # r)) = v' @ e # join_nl (splitlines r)" by auto
    from False have ne: "v @ e # r \<noteq> []" by simp
    have "join_nl (splitlines (x # v @ e # r)) = v' @ e # join_nl (splitlines r)
        \<or> join_nl (splitlines (x # v @ e # r)) = (CHR 0x0A # v') @ e # join_nl (splitlines r)
        \<or> join_nl (splitlines (x # v @ e # r)) = (x # v') @ e # join_nl (splitlines r)"
      using rejoin_Cons [of x "v @ e # r"] v'(3) ne by (simp split: if_splits)
    moreover have "e \<notin> set (CHR 0x0A # v')" "e \<notin> set (x # v')" using v'(2) lf xe by auto
    ultimately show ?thesis using v'(1,2) by (metis append_Cons list.distinct(1))
  qed
qed

lemma decimal_not_linebreak: "is_decimal c \<Longrightarrow> \<not> is_linebreak c"
  by (auto simp: is_decimal_def is_linebreak_def)

lemma tag_first: "re_match tag_re (m @ X) = None" if "m \<noteq> []" "hd m \<noteq> CHR ''<''"
  using that by (cases m) (simp_all add: re_match_first_None first_ok_tag)

lemma timing_first: "re_match timing_re (m @ X) = None" if "m \<noteq> []" "\<not> is_decimal (hd m)"
  using that by (cases m) (simp_all add: re_match_first_None first_ok_timing)

lemma tokens_rejoin:
  "tokens_only [tag_re, timing_re, align_num_re] s
     \<Longrightarrow> tokens_only [tag_re, timing_re, align_num_re] (join_nl (splitlines s))"
proof (induction "length s" arbitrary: s rule: less_induct)
  case less
  let ?ps = "[tag_re, timing_re, align_num_re]"
  show ?case
  proof (cases s)
    case Nil
    then show ?thesis by simp
  next
    case (Cons c cs)
    show ?thesis
    proof (cases "is_space c")
      case True
      with less.prems Cons have "tokens_only ?ps cs" by simp
      with less.hyps [of cs] Cons have ih: "tokens_only ?ps (join_nl (splitlines cs))" by simp
      have "join_nl (splitlines s) = join_nl (splitlines cs) \<or> join_nl (splitlines s) = []
          \<or> join_nl (splitlines s) = CHR 0x0A # join_nl (splitlines cs)
          \<or> join_nl (splitlines s) = c # join_nl (splitlines cs)"
        unfolding Cons using rejoin_Cons [of c cs] by (simp split: if_splits)
      with ih True lf_space show ?thesis by auto
    next
      case False
      with less.prems Cons obtain r where r: "first_match ?ps s = Some r"
          "length r < length s" "tokens_only ?ps r"
        by (auto split: option.splits if_splits)
      from less.hyps [OF r(2) r(3)] have ih: "tokens_only ?ps (join_nl (splitlines r))" .
      have "\<exists>m. m \<noteq> [] \<and> \<not> is_space (hd m)
              \<and> join_nl (splitlines s) = m @ join_nl (splitlines r)
              \<and> first_match ?ps (m @ join_nl (splitlines r)) = Some (join_nl (splitlines r))"
      proof (cases "re_match tag_re s")
        case (Some r')
        with r(1) have "re_match tag_re s = Some r" by simp
        then obtain v where v: "s = CHR ''<'' # v @ CHR ''>'' # r" "v \<noteq> []" "CHR ''>'' \<notin> set v"
          unfolding tag_match_iff by blast
        have gt: "\<not> is_linebreak (CHR ''>'')" by (simp add: is_linebreak_def)
        from rejoin_until [OF gt v(2,3), of r] obtain v' where v': "v' \<noteq> []" "CHR ''>'' \<notin> set v'"
            "join_nl (splitlines (v @ CHR ''>'' # r)) = v' @ CHR ''>'' # join_nl (splitlines r)"
          by blast
        have j: "join_nl (splitlines s) = (CHR ''<'' # v' @ ''>'') @ join_nl (splitlines r)"
          unfolding v(1) using rejoin_Cons [of "CHR ''<''" "v @ CHR ''>'' # r"] v'(3)
          by (simp add: is_linebreak_def)
        have "re_match tag_re ((CHR ''<'' # v' @ ''>'') @ join_nl (splitlines r))
            = Some (join_nl (splitlines r))"
          unfolding tag_match_iff using v'(1,2) by auto
        then have "first_match ?ps ((CHR ''<'' # v' @ ''>'') @ join_nl (splitlines r))
            = Some (join_nl (splitlines r))" by simp
        moreover have "\<not> is_space (hd (CHR ''<'' # v' @ ''>''))" by (simp add: lt_not_space)
        ultimately show ?thesis using j by blast
      next
        case None
        note tag_none = this
        show ?thesis
        proof (cases "re_match timing_re s")
          case (Some r')
          with r(1) tag_none have t: "re_match timing_re s = Some r" by simp
          from timing_token [OF t] obtain m where m: "s = m @ r" "m \<noteq> []"
              "re_match timing_re m = Some []" "\<forall>c\<in>set m. timing_char c" "is_decimal (hd m)"
            by blast
          have "\<forall>c\<in>set m. \<not> is_linebreak c" using m(4) timing_char_not_linebreak by blast
          from rejoin_plain_prefix [OF this, of r] m(1)
          have j: "join_nl (splitlines s) = m @ join_nl (splitlines r)" by simp
          have "re_match tag_re (m @ join_nl (splitlines r)) = None"
            using m(2,5) decimal_not_lt by (intro tag_first) auto
          moreover have "re_match timing_re (m @ join_nl (splitlines r)) = Some (join_nl (splitlines r))"
            by (rule ones_extend [OF timing_only_ones m(3)])
          ultimately have "first_match ?ps (m @ join_nl (splitlines r)) = Some (join_nl (splitlines r))"
            by simp
          with j m(2) decimal_not_space [OF m(5)] show ?thesis by blast
        next
          case None
          with r(1) tag_none have "re_match align_num_re s = Some r"
            by (simp only: first_match_skip first_match_single)
          from align_num_token [OF this] obtain n where n: "s = (''align:start position:'' @ n @ ''%'') @ r"
              "n \<noteq> []" "list_all is_decimal n" by blast
          define m where "m = ''align:start position:'' @ n @ ''%''"
          have hd: "hd m = CHR ''a''" and ne: "m \<noteq> []" by (simp_all add: m_def)
          have a: "\<forall>c\<in>set n. \<not> is_linebreak c"
          proof
            fix c assume "c \<in> set n"
            with n(3) have "is_decimal c" by (simp add: list_all_iff)
            then show "\<not> is_linebreak c" by (rule decimal_not_linebreak)
          qed
          have "\<forall>c\<in>set m. \<not> is_linebreak c"
            unfolding m_def using a by (simp add: is_linebreak_def)
          from rejoin_plain_prefix [OF this, of r] n(1)
          have j: "join_nl (splitlines s) = m @ join_nl (splitlines r)" by (simp add: m_def)
          have "re_match tag_re (m @ join_nl (splitlines r)) = None"
            using ne hd by (intro tag_first) auto
          moreover have "re_match timing_re (m @ join_nl (splitlines r)) = None"
            using ne hd by (intro timing_first) (auto simp: is_decimal_def)
          moreover have "re_match align_num_re (m @ join_nl (splitlines r)) = Some (join_nl (splitlines r))"
            unfolding m_def by (rule align_num_extend [OF n(2,3)])
          ultimately have "first_match ?ps (m @ join_nl (splitlines r)) = Some (join_nl (splitlines r))"
            by simp
          moreover have "\<not> is_space (hd m)" unfolding hd by (simp add: is_space_def)
          ultimately show ?thesis using j ne by blast
        qed
      qed
      then obtain m where m: "m \<noteq> []" "\<not> is_space (hd m)"
          "join_nl (splitlines s) = m @ join_nl (splitlines r)"
          "first_match ?ps (m @ join_nl (splitlines r)) = Some (join_nl (splitlines r))" by blast
      from tokens_only_token [OF m(1,2,4) ih] m(3) show ?thesis by simp
    qed
  qed
qed

lemma header_start_first:
  "header_start s \<Longrightarrow> \<exists>cs. s = CHR ''W'' # cs \<or> s = CHR ''K'' # cs \<or> s = CHR ''L'' # cs"
  by (cases s) (auto simp: header_start_def startswith_Cons startswith_Nil1)

lemma markup_only_no_header: "markup_only s \<Longrightarrow> \<not> header_start s"
proof
  assume m: "markup_only s" and h: "header_start s"
  from header_start_first [OF h] obtain c cs where s: "s = c # cs"
      "c = CHR ''W'' \<or> c = CHR ''K'' \<or> c = CHR ''L''" by auto
  then have ns: "\<not> is_space c" by (auto simp: is_space_def)
  with m s obtain r where "first_match [tag_re, timing_re, align_num_re] (c # cs) = Some r"
    by (auto simp: markup_only_def split: option.splits)
  then have "first_ok tag_re c \<or> first_ok timing_re c \<or> first_ok align_num_re c"
    by (auto split: option.splits dest: re_match_first)
  with s(2) show False
    by (auto simp: first_ok_tag first_ok_timing first_ok_align_num is_decimal_def)
qed

lemma markup_only_cleaned_away: "markup_only s \<Longrightarrow> clean_subtitles s = Some []"
proof -
  assume m: "markup_only s"
  then have "markup_only (join_nl (splitlines s))"
    unfolding markup_only_def by (rule tokens_rejoin)
  then have "clean_text (join_nl (splitlines s)) = []" by (rule clean_text_markup_only)
  with markup_only_no_header [OF m] show ?thesis
    by (simp add: clean_subtitles_eq no_header_kept)
qed

subsection \<open>Positioning artifacts in a text without tags and timing ranges\<close>

lemma no_tag_rejoin: "\<not> re_search tag_re s \<Longrightarrow> \<not> re_search tag_re (join_nl (splitlines s))"
  by (simp add: search_tag_iff lt_ok_rejoin)

lemma no_timing_rejoin:
  "\<not> re_search timing_re s \<Longrightarrow> \<not> re_search timing_re (join_nl (splitlines s))"
proof -
  have "re_search timing_re (join_nl (splitlines s)) \<Longrightarrow> re_search timing_re s"
    by (rule search_rejoin [OF _ _ timing_match_rejoin])
       (simp_all add: timing_re_def stamp_re_def is_decimal_def)
  then show "\<not> re_search timing_re s \<Longrightarrow> \<not> re_search timing_re (join_nl (splitlines s))"
    by blast
qed

lemma words_lead: "words s = filter (\<lambda>w. w \<noteq> []) [fst (lead_and_words s)] @ snd (lead_and_words s)"
  using words_split [of s] by (simp add: lead_and_words_def)

lemma lead_and_words_Cons:
  "lead_and_words (c # s) =
     (if is_space c then ([], words s)
      else (c # fst (lead_and_words s), snd (lead_and_words s)))"
  by (simp add: lead_and_words_def fields_Cons words_def)

lemma lead_and_words_same:
  "lead_and_words x = lead_and_words y \<Longrightarrow> lead_and_words (c # x) = lead_and_words (c # y)"
  by (simp add: lead_and_words_Cons words_lead)

lemma lead_and_words_extra:
  assumes "lead_and_words x = lead_and_words y" "is_space c" "y = [] \<or> is_space (hd y)"
  shows "lead_and_words x = lead_and_words (c # y)"
proof -
  from assms(3) have "fst (lead_and_words y) = []"
    by (simp add: lead_and_words_def hd_fields_Nil_iff)
  then have "lead_and_words (c # y) = lead_and_words y"
    using assms(2) by (simp add: lead_and_words_Cons words_lead prod_eq_iff)
  with assms(1) show ?thesis by simp
qed

lemma align_match_linebreak: "is_linebreak c \<Longrightarrow> re_match align_re (c # cs) = None"
  by (rule re_match_first_None) (auto simp: align_re_def lit_def is_linebreak_def)

lemma align_sub_rejoin:
  "lead_and_words (re_sub align_re [] (join_nl (splitlines s)))
     = lead_and_words (re_sub align_re [] s)"
proof (induction "length s" arbitrary: s rule: less_induct)
  case less
  note p = align_re_nonempty
  show ?case
  proof (cases s)
    case Nil
    then show ?thesis by simp
  next
    case (Cons c cs)
    let ?J = "join_nl (splitlines cs)"
    have ih: "lead_and_words (re_sub align_re [] ?J) = lead_and_words (re_sub align_re [] cs)"
      using less [of cs] Cons by simp
    show ?thesis
    proof (cases "is_linebreak c")
      case True
      then have sp: "is_space c" by (rule linebreak_space)
      have rs: "re_sub align_re [] s = c # re_sub align_re [] cs"
        unfolding Cons using align_match_linebreak [OF True, of cs] by (simp add: re_sub_Cons [OF p])
      show ?thesis
      proof (cases "c = CHR 0x0D \<and> cs \<noteq> [] \<and> hd cs = CHR 0x0A")
        case crlf: True
        then obtain ds where ds: "cs = CHR 0x0A # ds" by (cases cs) auto
        have j: "join_nl (splitlines s) = ?J"
          unfolding Cons using crlf True by (simp add: rejoin_Cons del: splitlines.simps)
        have "re_sub align_re [] cs = CHR 0x0A # re_sub align_re [] ds"
          unfolding ds using align_match_linebreak [OF lf_linebreak, of ds]
          by (simp add: re_sub_Cons [OF p])
        then have "re_sub align_re [] cs = [] \<or> is_space (hd (re_sub align_re [] cs))"
          by (simp add: lf_space)
        from lead_and_words_extra [OF ih sp this] show ?thesis unfolding j rs .
      next
        case False
        show ?thesis
        proof (cases "cs = []")
          case e: True
          with False True have j: "join_nl (splitlines s) = []"
            unfolding Cons by (simp add: rejoin_Cons del: splitlines.simps)
          have "lead_and_words (re_sub align_re [] []) = lead_and_words (re_sub align_re [] [])"
            by simp
          from lead_and_words_extra [OF this sp] show ?thesis
            unfolding j rs e by (simp add: re_sub_Nil [OF p])
        next
          case ne: False
          with False True have j: "join_nl (splitlines s) = CHR 0x0A # ?J"
            unfolding Cons by (simp add: rejoin_Cons del: splitlines.simps)
          have "re_sub align_re [] (CHR 0x0A # ?J) = CHR 0x0A # re_sub align_re [] ?J"
            using align_match_linebreak [OF lf_linebreak, of ?J] by (simp add: re_sub_Cons [OF p])
          then show ?thesis unfolding j rs
            using ih sp by (simp add: lead_and_words_Cons lf_space words_lead)
        qed
      qed
    next
      case False
      then have j: "join_nl (splitlines s) = c # ?J"
        unfolding Cons by (simp add: rejoin_Cons del: splitlines.simps)
      show ?thesis
      proof (cases "re_match align_re (c # cs)")
        case None
        have "re_match align_re (c # ?J) = None"
        proof (rule ccontr)
          assume "re_match align_re (c # ?J) \<noteq> None"
          then have "re_match align_re (join_nl (splitlines s)) \<noteq> None" unfolding j .
          from align_match_rejoin [OF this] None Cons show False by simp
        qed
        then have "re_sub align_re [] (join_nl (splitlines s)) = c # re_sub align_re [] ?J"
          unfolding j by (simp add: re_sub_Cons [OF p])
        moreover have "re_sub align_re [] s = c # re_sub align_re [] cs"
          unfolding Cons using None by (simp add: re_sub_Cons [OF p])
        ultimately show ?thesis using lead_and_words_same [OF ih] by simp
      next
        case (Some r)
        then obtain w where w: "c # cs = ''align:start position:'' @ w @ CHR ''%'' # r"
            "w \<noteq> []" "CHR ''%'' \<notin> set w"
          unfolding align_match_iff by blast
        have pc: "\<not> is_linebreak (CHR ''%'')" by (simp add: is_linebreak_def)
        from rejoin_until [OF pc w(2,3), of r] obtain w' where w': "w' \<noteq> []" "CHR ''%'' \<notin> set w'"
            "join_nl (splitlines (w @ CHR ''%'' # r)) = w' @ CHR ''%'' # join_nl (splitlines r)"
          by blast
        have "\<forall>c\<in>set ''align:start position:''. \<not> is_linebreak c" by (simp add: is_linebreak_def)
        from rejoin_plain_prefix [OF this, of "w @ CHR ''%'' # r"] w'(3)
        have "join_nl (splitlines (c # cs))
            = ''align:start position:'' @ w' @ CHR ''%'' # join_nl (splitlines r)"
          unfolding w(1) by simp
        then have "re_match align_re (join_nl (splitlines (c # cs))) = Some (join_nl (splitlines r))"
          unfolding align_match_iff using w'(1,2) by blast
        then have a: "re_sub align_re [] (join_nl (splitlines s))
            = re_sub align_re [] (join_nl (splitlines r))"
          using j unfolding Cons by (simp add: re_sub_Cons [OF p])
        have b: "re_sub align_re [] s = re_sub align_re [] r"
          unfolding Cons using Some by (simp add: re_sub_Cons [OF p])
        have "length r < length s"
          unfolding Cons using re_match_shorter [OF p Some] .
        from less [OF this] show ?thesis unfolding a b .
      qed
    qed
  qed
qed

lemma clean_without_tags_and_timings:
  assumes "\<not> header_start s" "\<not> re_search tag_re s" "\<not> re_search timing_re s"
  shows "clean_subtitles s = Some (unwords (words (re_sub align_re [] s)))"
proof -
  let ?t = "join_nl (splitlines s)"
  have "clean_text ?t = unwords (words (re_sub align_re [] ?t))"
    using no_tag_rejoin [OF assms(2)] no_timing_rejoin [OF assms(3)]
    by (simp add: clean_text_def Let_def re_sub_no_match strip_collapse_words)
  also have "\<dots> = unwords (words (re_sub align_re [] s))"
    using align_sub_rejoin [of s] by (simp add: words_lead)
  finally show ?thesis using assms(1) by (simp add: clean_subtitles_eq no_header_kept)
qed

lemma startswith_append: "startswith (a @ t) a"
  by (simp add: startswith_def)

lemma until_sub_first:
  assumes v: "v \<noteq> []" "e \<notin> set v"
  shows "\<not> begins_before a pre (a @ v @ e # post)
    \<Longrightarrow> re_sub (lit a @ [Plus (\<lambda>x. x \<noteq> e), One (\<lambda>x. x = e)]) [] (pre @ a @ v @ e # post)
          = pre @ re_sub (lit a @ [Plus (\<lambda>x. x \<noteq> e), One (\<lambda>x. x = e)]) [] post"
proof (induction pre)
  case Nil
  let ?p = "lit a @ [Plus (\<lambda>x. x \<noteq> e), One (\<lambda>x. x = e)]"
  have p: "?p \<noteq> []" by simp
  have "re_match ?p (a @ v @ e # post) = Some post"
    unfolding until_lit_match_iff using v by blast
  moreover have "a @ v @ e # post \<noteq> []" by simp
  ultimately have "re_sub ?p [] (a @ v @ e # post) = re_sub ?p [] post"
    using re_sub_Cons [OF p, of "[]" "hd (a @ v @ e # post)" "tl (a @ v @ e # post)"]
    by simp
  then show ?case by simp
next
  case (Cons x xs)
  let ?p = "lit a @ [Plus (\<lambda>x. x \<noteq> e), One (\<lambda>x. x = e)]"
  have p: "?p \<noteq> []" by simp
  from Cons.prems have n: "\<not> startswith (x # xs @ a @ v @ e # post) a"
      and r: "\<not> begins_before a xs (a @ v @ e # post)" by simp_all
  have "re_match ?p (x # xs @ a @ v @ e # post) = None"
  proof (cases "re_match ?p (x # xs @ a @ v @ e # post)")
    case (Some r)
    then obtain w where "x # xs @ a @ v @ e # post = a @ w @ e # r"
      unfolding until_lit_match_iff by blast
    with startswith_append [of a "w @ e # r"] n show ?thesis by simp
  qed simp
  with Cons.IH [OF r] show ?case by (simp add: re_sub_Cons [OF p])
qed

lemma align_sub_first:
  assumes "v \<noteq> []" "CHR ''%'' \<notin> set v"
      and "\<not> begins_before ''align:start position:'' pre (''align:start position:'' @ v @ ''%'' @ post)"
  shows "re_sub align_re [] (pre @ ''align:start position:'' @ v @ ''%'' @ post)
           = pre @ re_sub align_re [] post"
proof -
  have t: "align_re = lit ''align:start position:'' @ [Plus (\<lambda>x. x \<noteq> CHR ''%''), One (\<lambda>x. x = CHR ''%'')]"
    by (simp add: align_re_def lit_def)
  from until_sub_first [OF assms(1,2), of "''align:start position:''" pre post] assms(3)
  show ?thesis unfolding t by simp
qed

lemma clean_by_positioning_input:
  assumes "strip_header (splitlines s) = Some ls"
  shows "clean_subtitles s
     = Some (unwords (words (re_sub align_re [] (re_sub timing_re [] (re_sub tag_re [] (join_nl ls))))))"
  using assms by (simp add: clean_subtitles_def clean_text_def Let_def strip_collapse_words)

text \<open>
  C10, as the code has it. Let \<open>v\<close> be one or more characters other than \<^verbatim>\<open>%\<close>, numeric
  or not, and let the piece \<^verbatim>\<open>align:start position:\<close>, \<open>v\<close>, \<^verbatim>\<open>%\<close> stand between the texts
  \<open>pre\<close> and \<open>post\<close>, either in the input itself, when the input begins with none of the
  header tokens and contains no tag and no timing range, or, for any input, in the text
  that the header checks and the two earlier passes leave (\<open>ls\<close> are the lines after the
  header checks). Then \<open>clean_subtitles\<close> removes the piece: the result is made of the
  words of what is left of \<open>pre\<close> (an earlier piece that begins in it is removed with all
  that it spans) followed by \<open>post\<close> with its own pieces removed. When
  \<^verbatim>\<open>align:start position:\<close> begins nowhere in \<open>pre\<close>, all of \<open>pre\<close> is left; when moreover
  no such piece is in \<open>post\<close>, the result is the words of \<open>pre\<close> followed by \<open>post\<close>, one
  space between two words.
\<close>

theorem clean_removes_positioning_artifacts:
  assumes "v \<noteq> []" and "CHR ''%'' \<notin> set v"
      and "strip_header (splitlines s) = Some ls"
      and "(\<not> header_start s \<and> \<not> re_search tag_re s \<and> \<not> re_search timing_re s
              \<and> s = pre @ ''align:start position:'' @ v @ ''%'' @ post)
           \<or> re_sub timing_re [] (re_sub tag_re [] (join_nl ls))
                = pre @ ''align:start position:'' @ v @ ''%'' @ post"
  shows "(\<exists>pre'. subseq pre' pre
            \<and> clean_subtitles s = Some (unwords (words (pre' @ re_sub align_re [] post))))
       \<and> (\<not> begins_before ''align:start position:'' pre (''align:start position:'' @ v @ ''%'' @ post)
            \<longrightarrow> clean_subtitles s = Some (unwords (words (pre @ re_sub align_re [] post))))
       \<and> (\<not> begins_before ''align:start position:'' pre (''align:start position:'' @ v @ ''%'' @ post)
           \<and> \<not> re_search align_re post
            \<longrightarrow> clean_subtitles s = Some (unwords (words (pre @ post))))"
proof -
  let ?t = "pre @ ''align:start position:'' @ v @ ''%'' @ post"
  have c: "clean_subtitles s = Some (unwords (words (re_sub align_re [] ?t)))"
    using assms(4)
  proof
    assume a: "\<not> header_start s \<and> \<not> re_search tag_re s \<and> \<not> re_search timing_re s \<and> s = ?t"
    with clean_without_tags_and_timings [of s]
    have "clean_subtitles s = Some (unwords (words (re_sub align_re [] s)))" by blast
    moreover from a have "s = ?t" by blast
    ultimately show ?thesis by simp
  next
    assume "re_sub timing_re [] (re_sub tag_re [] (join_nl ls)) = ?t"
    with clean_by_positioning_input [OF assms(3)] show ?thesis by simp
  qed
  from align_sub_context [OF assms(1,2), of pre post] obtain pre' where
      "subseq pre' pre" "re_sub align_re [] ?t = pre' @ re_sub align_re [] post"
    by blast
  with c have 1: "\<exists>pre'. subseq pre' pre
      \<and> clean_subtitles s = Some (unwords (words (pre' @ re_sub align_re [] post)))"
    by auto
  have 2: "clean_subtitles s = Some (unwords (words (pre @ re_sub align_re [] post)))"
    if "\<not> begins_before ''align:start position:'' pre (''align:start position:'' @ v @ ''%'' @ post)"
    using align_sub_first [OF assms(1,2) that] c by simp
  have 3: "clean_subtitles s = Some (unwords (words (pre @ post)))"
    if "\<not> begins_before ''align:start position:'' pre (''align:start position:'' @ v @ ''%'' @ post)
        \<and> \<not> re_search align_re post"
    using 2 that by (simp add: re_sub_no_match)
  from 1 2 3 show ?thesis by blast
qed

theorem clean_removes_positioning_artifacts_witness:
  "\<not> header_start ''Hi\<newline>align:start position:abc%\<newline>there\<newline>''
   \<and> \<not> re_search tag_re ''Hi\<newline>align:start position:abc%\<newline>there\<newline>''
   \<and> \<not> re_search timing_re ''Hi\<newline>align:start position:abc%\<newline>there\<newline>''
   \<and> clean_subtitles ''Hi\<newline>align:start position:abc%\<newline>there\<newline>'' = Some ''Hi there''
   \<and> strip_header (splitlines ''WEBVTT\<newline>Kind: captions\<newline>Language: en\<newline>\<newline>00:00:01.000 --> 00:00:02.000 align:start position:abc%\<newline>Hello <c>world</c>\<newline>'')
       = Some [[], ''00:00:01.000 --> 00:00:02.000 align:start position:abc%'', ''Hello <c>world</c>'']
   \<and> re_sub timing_re [] (re_sub tag_re [] (join_nl
         [[], ''00:00:01.000 --> 00:00:02.000 align:start position:abc%'', ''Hello <c>world</c>'']))
       = ''\<newline> align:start position:abc%\<newline>Hello world''
   \<and> clean_subtitles ''WEBVTT\<newline>Kind: captions\<newline>Language: en\<newline>\<newline>00:00:01.000 --> 00:00:02.000 align:start position:abc%\<newline>Hello <c>world</c>\<newline>''
       = Some ''Hello world''"
proof -
  let ?s = "''Hi\<newline>align:start position:abc%\<newline>there\<newline>''"
  let ?f = "''WEBVTT\<newline>Kind: captions\<newline>Language: en\<newline>\<newline>00:00:01.000 --> 00:00:02.000 align:start position:abc%\<newline>Hello <c>world</c>\<newline>''"
  let ?ls = "[[], ''00:00:01.000 --> 00:00:02.000 align:start position:abc%'', ''Hello <c>world</c>'']"
  have a: "''abc'' \<noteq> []" "CHR ''%'' \<notin> set ''abc''" by simp_all
  have s: "?s = ''Hi\<newline>'' @ ''align:start position:'' @ ''abc'' @ ''%'' @ ''\<newline>there\<newline>''"
    by simp
  have h: "\<not> header_start ?s" "\<not> re_search tag_re ?s" "\<not> re_search timing_re ?s"
    by code_simp+
  have l: "strip_header (splitlines ?s) = Some [''Hi'', ''align:start position:abc%'', ''there'']"
    by code_simp
  have b: "\<not> begins_before ''align:start position:'' ''Hi\<newline>''
             (''align:start position:'' @ ''abc'' @ ''%'' @ ''\<newline>there\<newline>'')"
    by code_simp
  have n: "\<not> re_search align_re ''\<newline>there\<newline>''" by code_simp
  have w: "unwords (words (''Hi\<newline>'' @ ''\<newline>there\<newline>'')) = ''Hi there''" by code_simp
  from h s have d: "(\<not> header_start ?s \<and> \<not> re_search tag_re ?s \<and> \<not> re_search timing_re ?s
      \<and> ?s = ''Hi\<newline>'' @ ''align:start position:'' @ ''abc'' @ ''%'' @ ''\<newline>there\<newline>'')
    \<or> re_sub timing_re [] (re_sub tag_re [] (join_nl [''Hi'', ''align:start position:abc%'', ''there'']))
        = ''Hi\<newline>'' @ ''align:start position:'' @ ''abc'' @ ''%'' @ ''\<newline>there\<newline>''"
    by blast
  from clean_removes_positioning_artifacts [OF a l d] b n
  have "clean_subtitles ?s = Some (unwords (words (''Hi\<newline>'' @ ''\<newline>there\<newline>'')))"
    by blast
  then have c: "clean_subtitles ?s = Some ''Hi there''" by (simp only: w)
  have l': "strip_header (splitlines ?f) = Some ?ls" by code_simp
  have t: "re_sub timing_re [] (re_sub tag_re [] (join_nl ?ls))
      = ''\<newline> align:start position:abc%\<newline>Hello world''" by code_simp
  have t': "''\<newline> align:start position:abc%\<newline>Hello world''
      = ''\<newline> '' @ ''align:start position:'' @ ''abc'' @ ''%'' @ ''\<newline>Hello world''" by simp
  have b2: "\<not> begins_before ''align:start position:'' ''\<newline> ''
             (''align:start position:'' @ ''abc'' @ ''%'' @ ''\<newline>Hello world'')"
    by code_simp
  have n2: "\<not> re_search align_re ''\<newline>Hello world''" by code_simp
  have w2: "unwords (words (''\<newline> '' @ ''\<newline>Hello world'')) = ''Hello world''" by code_simp
  from t t' have d2: "(\<not> header_start ?f \<and> \<not> re_search tag_re ?f \<and> \<not> re_search timing_re ?f
      \<and> ?f = ''\<newline> '' @ ''align:start position:'' @ ''abc'' @ ''%'' @ ''\<newline>Hello world'')
    \<or> re_sub timing_re [] (re_sub tag_re [] (join_nl ?ls))
        = ''\<newline> '' @ ''align:start position:'' @ ''abc'' @ ''%'' @ ''\<newline>Hello world''"
    by (simp only: simp_thms)
  from clean_removes_positioning_artifacts [OF a l' d2] b2 n2
  have "clean_subtitles ?f = Some (unwords (words (''\<newline> '' @ ''\<newline>Hello world'')))"
    by blast
  then have c2: "clean_subtitles ?f = Some ''Hello world''" by (simp only: w2)
  from h c l' t c2 show ?thesis by blast
qed

text \<open>
  C10, as the claim states it, fails: the two earlier passes can change such a piece
  before the positioning pass reads it. In the first input the value is a tag, in the
  third a timing range: the earlier pass removes the value, and \<^verbatim>\<open>align:start position:%\<close>
  with its empty value is kept. In the second input the piece begins inside a tag that
  ends inside its value: the tag is removed, and the rest of the piece, \<^verbatim>\<open>0%\<close>, is kept.
\<close>

theorem earlier_passes_break_artifacts:
  "re_match align_re ''align:start position:<b>%'' = Some []
   \<and> clean_subtitles ''align:start position:<b>%'' = Some ''align:start position:%''
   \<and> re_match align_re ''align:start position:5>0% y'' = Some '' y''
   \<and> clean_subtitles ''x <i align:start position:5>0% y'' = Some ''x 0% y''
   \<and> re_match align_re ''align:start position:00:00:01.000 --> 00:00:02.000%'' = Some []
   \<and> clean_subtitles ''align:start position:00:00:01.000 --> 00:00:02.000%''
       = Some ''align:start position:%''"
  by code_simp

text \<open>
  C4, as the code has it. For every input the output contains no angle-bracket tag,
  has no two whitespace characters in a row and no whitespace at either end; and when
  the input consists only of tags, timing ranges, numeric positioning artifacts and
  whitespace, the output is the empty text, so that none of the three patterns is left.
  (Timing ranges and positioning artifacts are each removed in one scan from the left;
  with other text around them the output can still contain one that the removals and
  the collapsing of whitespace put together.)
\<close>

theorem clean_output_shape:
  "(\<exists>out. clean_subtitles s = Some out
       \<and> \<not> re_search tag_re out \<and> \<not> has_ws_run out \<and> trimmed out)
   \<and> (markup_only s \<longrightarrow> clean_subtitles s = Some [])"
  by (simp add: clean_subtitles_eq clean_text_no_tag clean_text_whitespace
      markup_only_cleaned_away [unfolded clean_subtitles_eq])

theorem clean_output_shape_witness:
  "markup_only ''<c> 00:00:01.000 --> 00:00:02.000 align:start position:0%\<newline><b>''
   \<and> clean_subtitles ''<c> 00:00:01.000 --> 00:00:02.000 align:start position:0%\<newline><b>'' = Some []"
proof -
  have m: "markup_only ''<c> 00:00:01.000 --> 00:00:02.000 align:start position:0%\<newline><b>''"
    by code_simp
  with clean_output_shape [of "''<c> 00:00:01.000 --> 00:00:02.000 align:start position:0%\<newline><b>''"]
  show ?thesis by blast
qed

text \<open>
  C4, as the claim states it, fails. In the first input a tag stands between the two
  halves of a timing range, in the second between the two halves of a positioning
  artifact, each time with whitespace on both sides: the tag is removed, the timing and
  positioning passes find nothing (two spaces where the pattern has one), and collapsing
  the whitespace then puts the pattern together. Both outputs contain a pattern the
  claim excludes.
\<close>

theorem removal_can_assemble_patterns:
  "clean_subtitles ''00:00:01.000 <c> --> 00:00:02.000''
      = Some ''00:00:01.000 --> 00:00:02.000''
   \<and> re_search timing_re ''00:00:01.000 --> 00:00:02.000''
   \<and> clean_subtitles ''align:start <c> position:5%''
      = Some ''align:start position:5%''
   \<and> re_search align_re ''align:start position:5%''"
  by code_simp

text \<open>
  C3 (scenario A). Cleaning the caption text of the scenario, a header of three lines,
  a blank line, a cue line with its timing range and positioning artifact, and the
  line \<^verbatim>\<open>Hello <c>world</c>\<close>, gives exactly \<^verbatim>\<open>Hello world\<close>.
\<close>

theorem scenario_A:
  "clean_subtitles ''WEBVTT\<newline>Kind: captions\<newline>Language: en\<newline>\<newline>00:00:01.000 --> 00:00:02.000 align:start position:0%\<newline>Hello <c>world</c>\<newline>''
     = Some ''Hello world''"
  by code_simp

end
